theory Spec2Isabelle
  imports Main "HOL-Library.Multiset"
begin

section \<open>Vectors, hash sets and faults\<close>

text \<open>
  The solver is C++. A \<^verbatim>\<open>vector\<close> is a list; \<^verbatim>\<open>operator[]\<close> outside the
  vector is undefined behaviour in C++, and the model makes it the fault \<open>OutOfBounds\<close>, so
  that a theorem of the form \<open>f x = Inr y\<close> also says that \<open>f\<close> stays inside its vectors.
  \<open>LengthError\<close> is the exception of \<^verbatim>\<open>vector::resize\<close> with a negative \<^verbatim>\<open>int\<close>
  (converted to a huge \<^verbatim>\<open>size_t\<close>). \<open>OutOfFuel\<close> is the only value that is not a
  behaviour of the code: recursive procedures take a bound on their recursion depth.

  The indices and colours are C++ \<^verbatim>\<open>int\<close>; they are modelled by unbounded \<open>int\<close>. All
  the arithmetic of the modelled functions stays between \<open>-1\<close> and twice the number of
  vertices, which is itself an \<^verbatim>\<open>int\<close>, so no operation wraps for graphs of fewer than
  \<open>2^30\<close> vertices.
\<close>

datatype error = OutOfBounds | LengthError | OutOfFuel

definition vec_at :: "'a list \<Rightarrow> int \<Rightarrow> error + 'a" where
  "vec_at xs i = (if 0 \<le> i \<and> i < int (length xs) then Inr (xs ! nat i) else Inl OutOfBounds)"

definition vec_put :: "'a list \<Rightarrow> int \<Rightarrow> 'a \<Rightarrow> error + 'a list" where
  "vec_put xs i x =
     (if 0 \<le> i \<and> i < int (length xs) then Inr (xs[nat i := x]) else Inl OutOfBounds)"

definition vec_upd :: "'a list \<Rightarrow> int \<Rightarrow> ('a \<Rightarrow> 'a) \<Rightarrow> error + 'a list" where
  "vec_upd xs i f =
     (if 0 \<le> i \<and> i < int (length xs) then Inr (xs[nat i := f (xs ! nat i)])
      else Inl OutOfBounds)"

text \<open>
  A loop without \<^verbatim>\<open>break\<close> over the elements of a container: the body maps the loop
  state to a new one or faults, and a fault ends the loop.
\<close>

fun for_each :: "'a list \<Rightarrow> ('a \<Rightarrow> 's \<Rightarrow> error + 's) \<Rightarrow> 's \<Rightarrow> error + 's" where
  "for_each [] body s = Inr s"
| "for_each (x # xs) body s =
     (case body x s of Inl e \<Rightarrow> Inl e | Inr s' \<Rightarrow> for_each xs body s')"

text \<open>
  A counted loop \<^verbatim>\<open>for (int i = lo; i < hi; i++)\<close>.
\<close>

function for_range :: "int \<Rightarrow> int \<Rightarrow> (int \<Rightarrow> 's \<Rightarrow> error + 's) \<Rightarrow> 's \<Rightarrow> error + 's" where
  "for_range lo hi body s =
     (if lo < hi then
        (case body lo s of Inl e \<Rightarrow> Inl e | Inr s' \<Rightarrow> for_range (lo + 1) hi body s')
      else Inr s)"
  by pat_completeness auto
termination
  by (relation "measure (\<lambda>(lo, hi, body, s). nat (hi - lo))") auto

declare for_range.simps [simp del]

text \<open>
  An \<^verbatim>\<open>unordered_set<int>\<close> is the list of its elements in iteration order, without
  repetition. The iteration order of a hash set is unspecified; the theorems below hold for
  every graph, hence for every order in which the adjacency sets may be listed.
  \<^verbatim>\<open>count\<close> and \<^verbatim>\<open>find\<close> are membership, \<^verbatim>\<open>insert\<close> leaves a set that has the element
  as it is, \<^verbatim>\<open>size\<close> is the length.
\<close>

definition uset_count :: "int list \<Rightarrow> int \<Rightarrow> bool" where
  "uset_count s x = (x \<in> set s)"

definition uset_insert :: "int \<Rightarrow> int list \<Rightarrow> int list" where
  "uset_insert x s = (if x \<in> set s then s else s @ [x])"

definition uset_size :: "int list \<Rightarrow> int" where
  "uset_size s = int (length s)"

section \<open>The graph quotient model (graph.hpp, graph.cpp)\<close>

text \<open>
  \<^verbatim>\<open>struct Graph { int n; int orig_n; vector<unordered_set<int>> adj;
  vector<vector<int>> mapping; }\<close>. The field \<^verbatim>\<open>n\<close> is called \<open>cur_n\<close> here, to
  keep \<open>n\<close> free as a variable name.
\<close>

record graph =
  cur_n :: int
  orig_n :: int
  adj :: "int list list"
  mapping :: "int list list"

text \<open>\<^verbatim>\<open>Graph::Graph(int n_)\<close>: \<open>n0\<close> isolated vertices, vertex \<open>i\<close> standing for itself.\<close>

definition Graph :: "int \<Rightarrow> error + graph" where
  "Graph n0 =
     (if n0 < 0 then Inl LengthError
      else Inr \<lparr>cur_n = n0, orig_n = n0, adj = replicate (nat n0) [],
                mapping = map (\<lambda>i. [i]) [0..n0 - 1]\<rparr>)"

text \<open>
  \<^verbatim>\<open>Graph::addEdge\<close>: a copy of the graph, and under the guard \<^verbatim>\<open>i < n && j < n\<close> the
  two insertions \<^verbatim>\<open>newG.adj[i].insert(j); newG.adj[j].insert(i);\<close>.
\<close>

definition addEdge :: "graph \<Rightarrow> int \<Rightarrow> int \<Rightarrow> error + graph" where
  "addEdge g i j =
     (if i < cur_n g \<and> j < cur_n g then
        (case vec_upd (adj g) i (uset_insert j) of
           Inl e \<Rightarrow> Inl e
         | Inr adj1 \<Rightarrow>
             (case vec_upd adj1 j (uset_insert i) of
                Inl e \<Rightarrow> Inl e
              | Inr adj2 \<Rightarrow> Inr (g\<lparr>adj := adj2\<rparr>)))
      else Inr g)"

section \<open>Branching-pair selection (branch_and_bound.cpp)\<close>

text \<open>
  \<^verbatim>\<open>selectBranchingPair\<close>: the degrees are read into a vector, then every pair
  \<open>i < j\<close> with \<open>j\<close> outside \<open>adj[i]\<close> is scored by its degree sum and a strictly
  better score replaces the pair kept so far.
\<close>

definition select_body ::
  "graph \<Rightarrow> int list \<Rightarrow> int \<Rightarrow> int \<Rightarrow> int \<times> int \<times> int \<Rightarrow> error + int \<times> int \<times> int" where
  "select_body g degrees i j st =
     (case st of (v1, v2, bestScore) \<Rightarrow>
        (case vec_at (adj g) i of
           Inl e \<Rightarrow> Inl e
         | Inr ai \<Rightarrow>
             if \<not> uset_count ai j then
               (case vec_at degrees i of
                  Inl e \<Rightarrow> Inl e
                | Inr di \<Rightarrow>
                    (case vec_at degrees j of
                       Inl e \<Rightarrow> Inl e
                     | Inr dj \<Rightarrow>
                         let score = di + dj in
                         if score > bestScore then Inr (i, j, score)
                         else Inr (v1, v2, bestScore)))
             else Inr (v1, v2, bestScore)))"

definition degrees_body :: "graph \<Rightarrow> int \<Rightarrow> int list \<Rightarrow> error + int list" where
  "degrees_body g i degrees =
     (case vec_at (adj g) i of Inl e \<Rightarrow> Inl e | Inr ai \<Rightarrow> vec_put degrees i (uset_size ai))"

definition selectBranchingPair :: "graph \<Rightarrow> error + int \<times> int" where
  "selectBranchingPair g =
     (if cur_n g < 0 then Inl LengthError
      else
        (case for_range 0 (cur_n g) (degrees_body g) (replicate (nat (cur_n g)) 0) of
           Inl e \<Rightarrow> Inl e
         | Inr degrees \<Rightarrow>
             (case for_range 0 (cur_n g)
                     (\<lambda>i. for_range (i + 1) (cur_n g) (select_body g degrees i)) (- 1, - 1, - 1) of
                Inl e \<Rightarrow> Inl e
              | Inr (v1, v2, bestScore) \<Rightarrow> Inr (v1, v2))))"

text \<open>
  The notions of the claims about it: a pair of the scan (\<open>i < j\<close>, \<open>j\<close> not in
  \<open>adj[i]\<close>), its degree sum, the pairs scanned before the loops reach \<open>(i, j)\<close>, and
  what the loop state holds with respect to a set of scanned pairs.
\<close>

definition nonadj :: "graph \<Rightarrow> int \<Rightarrow> int \<Rightarrow> bool" where
  "nonadj g i j = (0 \<le> i \<and> i < j \<and> j < cur_n g \<and> \<not> uset_count (adj g ! nat i) j)"

definition deg_sum :: "graph \<Rightarrow> int \<Rightarrow> int \<Rightarrow> int" where
  "deg_sum g i j = uset_size (adj g ! nat i) + uset_size (adj g ! nat j)"

definition scanned :: "graph \<Rightarrow> int \<Rightarrow> int \<Rightarrow> (int \<times> int) set" where
  "scanned g i j = {(a, b). nonadj g a b \<and> (a < i \<or> (a = i \<and> b < j))}"

definition best_of :: "graph \<Rightarrow> (int \<times> int) set \<Rightarrow> int \<times> int \<times> int \<Rightarrow> bool" where
  "best_of g C st =
     (case st of (v1, v2, best) \<Rightarrow>
        (C = {} \<and> v1 = - 1 \<and> v2 = - 1 \<and> best = - 1) \<or>
        ((v1, v2) \<in> C \<and> best = deg_sum g v1 v2 \<and>
         (\<forall>(a, b) \<in> C. deg_sum g a b \<le> best \<and>
            (deg_sum g a b = best \<longrightarrow> v1 < a \<or> (v1 = a \<and> v2 \<le> b)))))"

section \<open>DSATUR colouring (graph.cpp)\<close>

text \<open>
  \<^verbatim>\<open>Graph::heuristicColoring\<close>. \<open>pick_body\<close> is the body of the loop of the lambda
  \<^verbatim>\<open>pickNextVertex\<close>, whose state is \<open>(bestV, bestSat, bestDeg)\<close>; \<^verbatim>\<open>degree[v]\<close> is read
  when the saturation is not below \<^verbatim>\<open>bestSat\<close>, as the \<^verbatim>\<open>||\<close> and \<^verbatim>\<open>&&\<close> of the
  condition and the assignments after it do. \<open>used_body\<close> marks the colour of a coloured
  neighbour, \<open>first_free\<close> is the \<^verbatim>\<open>while (c < nLocal && used[c]) c++\<close>, \<open>seesC_loop\<close>
  the scan of \<^verbatim>\<open>adj[w]\<close> for colour \<open>c\<close> with its \<^verbatim>\<open>break\<close>, \<open>saturation_body\<close> the
  body of the second loop over \<^verbatim>\<open>adj[v]\<close>. \<open>color_step\<close> is one iteration of the main
  loop after \<open>v\<close> was picked (the state is \<open>(color, saturation)\<close>), \<open>color_loop\<close> the
  main loop with its \<^verbatim>\<open>break\<close> on \<open>v = -1\<close>, and \<open>max_body\<close> the loop that computes
  \<^verbatim>\<open>usedColors\<close>. The loop that fills \<^verbatim>\<open>degree\<close> is the one of
  \<open>selectBranchingPair\<close>.
\<close>

definition pick_body ::
  "int list \<Rightarrow> int list \<Rightarrow> int list \<Rightarrow> int \<Rightarrow> int \<times> int \<times> int \<Rightarrow> error + int \<times> int \<times> int" where
  "pick_body color saturation degree v st =
     (case st of (bestV, bestSat, bestDeg) \<Rightarrow>
        (case vec_at color v of
           Inl e \<Rightarrow> Inl e
         | Inr cv \<Rightarrow>
             if cv = - 1 then
               (case vec_at saturation v of
                  Inl e \<Rightarrow> Inl e
                | Inr sv \<Rightarrow>
                    if sv > bestSat \<or> sv = bestSat then
                      (case vec_at degree v of
                         Inl e \<Rightarrow> Inl e
                       | Inr dv \<Rightarrow>
                           if sv > bestSat \<or> dv > bestDeg then Inr (v, sv, dv)
                           else Inr (bestV, bestSat, bestDeg))
                    else Inr (bestV, bestSat, bestDeg))
             else Inr (bestV, bestSat, bestDeg)))"

definition pickNextVertex :: "int \<Rightarrow> int list \<Rightarrow> int list \<Rightarrow> int list \<Rightarrow> error + int" where
  "pickNextVertex nLocal color saturation degree =
     (case for_range 0 nLocal (pick_body color saturation degree) (- 1, - 1, - 1) of
        Inl e \<Rightarrow> Inl e
      | Inr (bestV, bestSat, bestDeg) \<Rightarrow> Inr bestV)"

definition used_body :: "int list \<Rightarrow> int \<Rightarrow> bool list \<Rightarrow> error + bool list" where
  "used_body color w used =
     (case vec_at color w of
        Inl e \<Rightarrow> Inl e
      | Inr cw \<Rightarrow> if cw \<noteq> - 1 then vec_put used cw True else Inr used)"

function first_free :: "int \<Rightarrow> bool list \<Rightarrow> int \<Rightarrow> error + int" where
  "first_free nLocal used c =
     (if c < nLocal then
        (case vec_at used c of
           Inl e \<Rightarrow> Inl e
         | Inr u \<Rightarrow> if u then first_free nLocal used (c + 1) else Inr c)
      else Inr c)"
  by pat_completeness auto
termination
  by (relation "measure (\<lambda>(nLocal, used, c). nat (nLocal - c))") auto

declare first_free.simps [simp del]

fun seesC_loop :: "int list \<Rightarrow> int \<Rightarrow> int list \<Rightarrow> error + bool" where
  "seesC_loop color c [] = Inr False"
| "seesC_loop color c (x # xs) =
     (case vec_at color x of
        Inl e \<Rightarrow> Inl e
      | Inr cx \<Rightarrow> if cx = c then Inr True else seesC_loop color c xs)"

definition saturation_body ::
  "int list list \<Rightarrow> int list \<Rightarrow> int \<Rightarrow> int \<Rightarrow> int list \<Rightarrow> error + int list" where
  "saturation_body adjs color c w saturation =
     (case vec_at color w of
        Inl e \<Rightarrow> Inl e
      | Inr cw \<Rightarrow>
          if cw = - 1 then
            (case vec_at adjs w of
               Inl e \<Rightarrow> Inl e
             | Inr aw \<Rightarrow>
                 (case seesC_loop color c aw of
                    Inl e \<Rightarrow> Inl e
                  | Inr seesC \<Rightarrow>
                      if \<not> seesC then vec_upd saturation w (\<lambda>s. s + 1) else Inr saturation))
          else Inr saturation)"

definition color_step :: "graph \<Rightarrow> int \<Rightarrow> int list \<times> int list \<Rightarrow> error + int list \<times> int list" where
  "color_step g v st =
     (case st of (color, saturation) \<Rightarrow>
        (case vec_at (adj g) v of
           Inl e \<Rightarrow> Inl e
         | Inr av \<Rightarrow>
             (case for_each av (used_body color) (replicate (nat (cur_n g)) False) of
                Inl e \<Rightarrow> Inl e
              | Inr used \<Rightarrow>
                  (case first_free (cur_n g) used 0 of
                     Inl e \<Rightarrow> Inl e
                   | Inr c \<Rightarrow>
                       (case vec_put color v c of
                          Inl e \<Rightarrow> Inl e
                        | Inr color' \<Rightarrow>
                            (case for_each av (saturation_body (adj g) color' c) saturation of
                               Inl e \<Rightarrow> Inl e
                             | Inr saturation' \<Rightarrow> Inr (color', saturation')))))))"

function color_loop ::
  "int \<Rightarrow> graph \<Rightarrow> int list \<Rightarrow> int list \<times> int list \<Rightarrow> error + int list \<times> int list" where
  "color_loop step g degree st =
     (if step < cur_n g then
        (case pickNextVertex (cur_n g) (fst st) (snd st) degree of
           Inl e \<Rightarrow> Inl e
         | Inr v \<Rightarrow>
             if v = - 1 then Inr st
             else
               (case color_step g v st of
                  Inl e \<Rightarrow> Inl e
                | Inr st' \<Rightarrow> color_loop (step + 1) g degree st'))
      else Inr st)"
  by pat_completeness auto
termination
  by (relation "measure (\<lambda>(step, g, degree, st). nat (cur_n g - step))") auto

declare color_loop.simps [simp del]

definition max_body :: "int list \<Rightarrow> int \<Rightarrow> int \<Rightarrow> error + int" where
  "max_body color v usedColors =
     (case vec_at color v of Inl e \<Rightarrow> Inl e | Inr cv \<Rightarrow> Inr (max usedColors (cv + 1)))"

definition heuristicColoring :: "graph \<Rightarrow> error + int \<times> int list" where
  "heuristicColoring g =
     (if cur_n g < 0 then Inl LengthError
      else
        (case for_range 0 (cur_n g) (degrees_body g) (replicate (nat (cur_n g)) 0) of
           Inl e \<Rightarrow> Inl e
         | Inr degree \<Rightarrow>
             (case color_loop 0 g degree
                     (replicate (nat (cur_n g)) (- 1), replicate (nat (cur_n g)) 0) of
                Inl e \<Rightarrow> Inl e
              | Inr (color, saturation) \<Rightarrow>
                  (case for_range 0 (cur_n g) (max_body color) 0 of
                     Inl e \<Rightarrow> Inl e
                   | Inr usedColors \<Rightarrow> Inr (usedColors, color)))))"

text \<open>
  The invariants of the adjacency structure (section 3 of the specification): \<open>n\<close> sets
  of vertices in \<open>[0, n)\<close>, symmetric, without self-loops. The lists that stand for the
  sets have no repetition.
\<close>

definition valid_adj :: "graph \<Rightarrow> bool" where
  "valid_adj g =
     (0 \<le> cur_n g \<and> int (length (adj g)) = cur_n g \<and>
      (\<forall>i \<in> {0..<cur_n g}.
         distinct (adj g ! nat i) \<and>
         (\<forall>w \<in> set (adj g ! nat i).
            0 \<le> w \<and> w < cur_n g \<and> w \<noteq> i \<and> i \<in> set (adj g ! nat w))))"


text \<open>
  The loop invariants of the colouring: the colours are \<open>-1\<close> or in \<open>[0, n)\<close> and no
  edge joins two coloured vertices of the same colour; the saturations are not negative;
  and the set of vertices still to colour.
\<close>

definition col_inv :: "graph \<Rightarrow> int list \<Rightarrow> bool" where
  "col_inv g color =
     (length color = nat (cur_n g) \<and>
      (\<forall>u \<in> {0..<cur_n g}. - 1 \<le> color ! nat u \<and> color ! nat u < cur_n g) \<and>
      (\<forall>u \<in> {0..<cur_n g}. \<forall>w \<in> set (adj g ! nat u).
         color ! nat u \<noteq> - 1 \<and> color ! nat w \<noteq> - 1 \<longrightarrow> color ! nat u \<noteq> color ! nat w))"

definition sat_inv :: "graph \<Rightarrow> int list \<Rightarrow> bool" where
  "sat_inv g saturation =
     (length saturation = nat (cur_n g) \<and> (\<forall>s \<in> set saturation. 0 \<le> s))"

definition uncolored :: "graph \<Rightarrow> int list \<Rightarrow> int set" where
  "uncolored g color = {u \<in> {0..<cur_n g}. color ! nat u = - 1}"

section \<open>Bron--Kerbosch clique bound (graph.cpp)\<close>

text \<open>
  \<^verbatim>\<open>bronKerbosch\<close> recurses inside its loop over \<^verbatim>\<open>pWithoutPivot\<close>. The first
  argument bounds the depth of the recursion: at depth zero the model returns \<open>OutOfFuel\<close>.
  \<open>bk_branches\<close> is that loop, with its \<^verbatim>\<open>break\<close> when \<open>P\<close> becomes empty; \<open>R\<close> is
  passed by value, since every \<^verbatim>\<open>push_back\<close> is undone by the \<^verbatim>\<open>pop_back\<close> after the call,
  and the \<open>P\<close> and \<open>X\<close> of a call are locals of its caller that are dropped on return.
  The best clique so far is the pair \<open>(bestSize, bestClique)\<close>.
\<close>

definition count_body :: "int list list \<Rightarrow> int \<Rightarrow> int \<Rightarrow> int \<Rightarrow> error + int" where
  "count_body adjs u w cnt =
     (case vec_at adjs u of
        Inl e \<Rightarrow> Inl e
      | Inr au \<Rightarrow> if uset_count au w then Inr (cnt + 1) else Inr cnt)"

definition pivot_body :: "int list list \<Rightarrow> int list \<Rightarrow> int \<Rightarrow> int \<times> int \<Rightarrow> error + int \<times> int" where
  "pivot_body adjs P u st =
     (case st of (pivot, maxCount) \<Rightarrow>
        (case for_each P (count_body adjs u) 0 of
           Inl e \<Rightarrow> Inl e
         | Inr cnt \<Rightarrow> if cnt > maxCount then Inr (u, cnt) else Inr (pivot, maxCount)))"

definition without_body :: "int list list \<Rightarrow> int \<Rightarrow> int \<Rightarrow> int list \<Rightarrow> error + int list" where
  "without_body adjs pivot v pWithoutPivot =
     (case vec_at adjs pivot of
        Inl e \<Rightarrow> Inl e
      | Inr ap \<Rightarrow> if \<not> uset_count ap v then Inr (pWithoutPivot @ [v]) else Inr pWithoutPivot)"

definition nbr_body :: "int list list \<Rightarrow> int \<Rightarrow> int \<Rightarrow> int list \<Rightarrow> error + int list" where
  "nbr_body adjs v w new =
     (case vec_at adjs v of
        Inl e \<Rightarrow> Inl e
      | Inr av \<Rightarrow> if uset_count av w then Inr (new @ [w]) else Inr new)"

fun bronKerbosch ::
  "nat \<Rightarrow> int list list \<Rightarrow> int list \<Rightarrow> int list \<Rightarrow> int list \<Rightarrow> int \<times> int list
     \<Rightarrow> error + int \<times> int list"
and bk_branches ::
  "nat \<Rightarrow> int list list \<Rightarrow> int list \<Rightarrow> int list \<Rightarrow> int list \<Rightarrow> int list \<Rightarrow> int \<times> int list
     \<Rightarrow> error + int \<times> int list"
where
  "bronKerbosch 0 adjs R P X best = Inl OutOfFuel"
| "bronKerbosch (Suc fuel) adjs R P X best =
     (if P = [] \<and> X = [] then
        (if int (length R) > fst best then Inr (int (length R), R) else Inr best)
      else
        (case for_each (P @ X) (pivot_body adjs P) (- 1, - 1) of
           Inl e \<Rightarrow> Inl e
         | Inr (pivot, maxCount) \<Rightarrow>
             (case for_each P (without_body adjs pivot) [] of
                Inl e \<Rightarrow> Inl e
              | Inr pWithoutPivot \<Rightarrow> bk_branches fuel adjs pWithoutPivot R P X best)))"
| "bk_branches fuel adjs [] R P X best = Inr best"
| "bk_branches fuel adjs (v # vs) R P X best =
     (case for_each P (nbr_body adjs v) [] of
        Inl e \<Rightarrow> Inl e
      | Inr newP \<Rightarrow>
          (case for_each X (nbr_body adjs v) [] of
             Inl e \<Rightarrow> Inl e
           | Inr newX \<Rightarrow>
               (case bronKerbosch fuel adjs (R @ [v]) newP newX best of
                  Inl e \<Rightarrow> Inl e
                | Inr best' \<Rightarrow>
                    if removeAll v P = [] then Inr best'
                    else bk_branches fuel adjs vs R (removeAll v P) (X @ [v]) best')))"

definition heuristicMaxClique :: "nat \<Rightarrow> graph \<Rightarrow> error + int \<times> int list" where
  "heuristicMaxClique fuel g =
     bronKerbosch fuel (adj g) [] [0..int (length (adj g)) - 1] [] (0, [])"

text \<open>A clique of the graph: distinct vertices, pairwise adjacent.\<close>

definition is_clique :: "graph \<Rightarrow> int list \<Rightarrow> bool" where
  "is_clique g C =
     (distinct C \<and> (\<forall>u \<in> set C. 0 \<le> u \<and> u < cur_n g) \<and>
      (\<forall>u \<in> set C. \<forall>w \<in> set C. u \<noteq> w \<longrightarrow> uset_count (adj g ! nat u) w))"

text \<open>
  The invariant of the enumeration: \<open>R\<close> is a clique and every candidate of \<open>P\<close> is a
  vertex adjacent to all of \<open>R\<close>; the best clique so far is a clique of the recorded size.
\<close>

definition bk_inv :: "graph \<Rightarrow> int list \<Rightarrow> int list \<Rightarrow> bool" where
  "bk_inv g R P =
     (is_clique g R \<and> distinct P \<and>
      (\<forall>p \<in> set P. 0 \<le> p \<and> p < cur_n g \<and> (\<forall>r \<in> set R. p \<in> set (adj g ! nat r))))"

definition best_ok :: "graph \<Rightarrow> int \<times> int list \<Rightarrow> bool" where
  "best_ok g best = (is_clique g (snd best) \<and> fst best = int (length (snd best)))"

section \<open>mergeVertices (graph.cpp)\<close>

text \<open>
  \<^verbatim>\<open>Graph::mergeVertices\<close>: \<^verbatim>\<open>Graph newG(n - 1)\<close>, then \<^verbatim>\<open>newIndices\<close> (every old
  index but \<open>j\<close>), the loop that fills \<^verbatim>\<open>newG.mapping\<close>, and the double loop over
  \<open>a < b\<close> that tests \<^verbatim>\<open>connected\<close> on the old indices and inserts \<open>b\<close> into
  \<^verbatim>\<open>newG.adj[a]\<close> and \<open>a\<close> into \<^verbatim>\<open>newG.adj[b]\<close>. The two \<^verbatim>\<open>resize\<close> calls after the
  constructor keep the sizes the constructor gave. The \<^verbatim>\<open>||\<close> of the test on
  \<^verbatim>\<open>adj[i]\<close> and \<^verbatim>\<open>adj[j]\<close> reads \<^verbatim>\<open>adj[j]\<close> only when the first operand is false.
\<close>

definition indices_body :: "int \<Rightarrow> int \<Rightarrow> int list \<Rightarrow> error + int list" where
  "indices_body j k newIndices = (if k = j then Inr newIndices else Inr (newIndices @ [k]))"

definition merge_mapping_body ::
  "graph \<Rightarrow> int \<Rightarrow> int \<Rightarrow> int list \<Rightarrow> int \<Rightarrow> int list list \<Rightarrow> error + int list list" where
  "merge_mapping_body g i j newIndices a newMapping =
     (case vec_at newIndices a of
        Inl e \<Rightarrow> Inl e
      | Inr oldIndex \<Rightarrow>
          if oldIndex = i then
            (case vec_at (mapping g) i of
               Inl e \<Rightarrow> Inl e
             | Inr mi \<Rightarrow>
                 (case vec_at (mapping g) j of
                    Inl e \<Rightarrow> Inl e
                  | Inr mj \<Rightarrow> vec_put newMapping a (mi @ mj)))
          else
            (case vec_at (mapping g) oldIndex of
               Inl e \<Rightarrow> Inl e
             | Inr mo \<Rightarrow> vec_put newMapping a mo))"

definition connected_test :: "graph \<Rightarrow> int \<Rightarrow> int \<Rightarrow> int \<Rightarrow> int \<Rightarrow> error + bool" where
  "connected_test g i j origA origB =
     (if origA = i \<or> origB = i then
        (if origA = i then
           (case vec_at (adj g) i of
              Inl e \<Rightarrow> Inl e
            | Inr ai \<Rightarrow>
                if uset_count ai origB then Inr True
                else
                  (case vec_at (adj g) j of
                     Inl e \<Rightarrow> Inl e
                   | Inr aj \<Rightarrow> Inr (uset_count aj origB)))
         else
           (case vec_at (adj g) origA of
              Inl e \<Rightarrow> Inl e
            | Inr aa \<Rightarrow> Inr (uset_count aa i \<or> uset_count aa j)))
      else
        (case vec_at (adj g) origA of
           Inl e \<Rightarrow> Inl e
         | Inr aa \<Rightarrow> Inr (uset_count aa origB)))"

definition merge_adj_body ::
  "graph \<Rightarrow> int \<Rightarrow> int \<Rightarrow> int list \<Rightarrow> int \<Rightarrow> int \<Rightarrow> int list list \<Rightarrow> error + int list list" where
  "merge_adj_body g i j newIndices a b newAdj =
     (case vec_at newIndices a of
        Inl e \<Rightarrow> Inl e
      | Inr origA \<Rightarrow>
          (case vec_at newIndices b of
             Inl e \<Rightarrow> Inl e
           | Inr origB \<Rightarrow>
               (case connected_test g i j origA origB of
                  Inl e \<Rightarrow> Inl e
                | Inr connected \<Rightarrow>
                    if connected then
                      (case vec_upd newAdj a (uset_insert b) of
                         Inl e \<Rightarrow> Inl e
                       | Inr adj1 \<Rightarrow> vec_upd adj1 b (uset_insert a))
                    else Inr newAdj)))"

definition mergeVertices :: "graph \<Rightarrow> int \<Rightarrow> int \<Rightarrow> error + graph" where
  "mergeVertices g i j =
     (case Graph (cur_n g - 1) of
        Inl e \<Rightarrow> Inl e
      | Inr newG \<Rightarrow>
          (case for_range 0 (cur_n g) (indices_body j) [] of
             Inl e \<Rightarrow> Inl e
           | Inr newIndices \<Rightarrow>
               (case for_range 0 (cur_n newG) (merge_mapping_body g i j newIndices)
                       (mapping newG) of
                  Inl e \<Rightarrow> Inl e
                | Inr newMapping \<Rightarrow>
                    (case for_range 0 (cur_n newG)
                            (\<lambda>a. for_range (a + 1) (cur_n newG)
                                   (merge_adj_body g i j newIndices a))
                            (adj newG) of
                       Inl e \<Rightarrow> Inl e
                     | Inr newAdj \<Rightarrow>
                         Inr (newG\<lparr>orig_n := orig_n g, adj := newAdj,
                                   mapping := newMapping\<rparr>)))))"

text \<open>
  The notions of the proofs about it: the old index of a new vertex, the value of the
  \<^verbatim>\<open>connected\<close> test on two old indices, the set of directed edges of an adjacency
  vector, the pairs \<open>a < b\<close> the double loop has passed when it reaches \<open>(a, b)\<close>, the
  edges these pairs have produced, and the loop invariant.
\<close>

definition old_index :: "int \<Rightarrow> int \<Rightarrow> int" where
  "old_index j a = (if a < j then a else a + 1)"

definition merged_edge :: "graph \<Rightarrow> int \<Rightarrow> int \<Rightarrow> int \<Rightarrow> int \<Rightarrow> bool" where
  "merged_edge g i j x y =
     (if x = i then y \<in> set (adj g ! nat i) \<or> y \<in> set (adj g ! nat j)
      else if y = i then i \<in> set (adj g ! nat x) \<or> j \<in> set (adj g ! nat x)
      else y \<in> set (adj g ! nat x))"

definition edges_of :: "int list list \<Rightarrow> (int \<times> int) set" where
  "edges_of ad = {(x, y). 0 \<le> x \<and> x < int (length ad) \<and> y \<in> set (ad ! nat x)}"

definition merge_scanned :: "int \<Rightarrow> int \<Rightarrow> int \<Rightarrow> (int \<times> int) set" where
  "merge_scanned m a b = {(x, y). 0 \<le> x \<and> x < y \<and> y < m \<and> (x < a \<or> (x = a \<and> y < b))}"

definition sym_edges :: "graph \<Rightarrow> int \<Rightarrow> int \<Rightarrow> (int \<times> int) set \<Rightarrow> (int \<times> int) set" where
  "sym_edges g i j S =
     {(x, y). ((x, y) \<in> S \<and> merged_edge g i j (old_index j x) (old_index j y)) \<or>
              ((y, x) \<in> S \<and> merged_edge g i j (old_index j y) (old_index j x))}"

definition merge_inv ::
  "graph \<Rightarrow> int \<Rightarrow> int \<Rightarrow> (int \<times> int) set \<Rightarrow> int list list \<Rightarrow> bool" where
  "merge_inv g i j S ad =
     (int (length ad) = cur_n g - 1 \<and> (\<forall>x \<in> set ad. distinct x) \<and>
      edges_of ad = sym_edges g i j S)"

section \<open>Invariants of the data model\<close>

text \<open>
  The mappings are non-empty lists of original vertices that partition \<open>[0, orig_n)\<close>;
  \<open>new_index j k\<close> is the index that the old vertex \<open>k \<noteq> j\<close> has after the vertex
  \<open>j\<close> was removed.
\<close>

definition valid_mapping :: "graph \<Rightarrow> bool" where
  "valid_mapping g =
     (int (length (mapping g)) = cur_n g \<and> (\<forall>m \<in> set (mapping g). m \<noteq> []) \<and>
      distinct (concat (mapping g)) \<and> set (concat (mapping g)) = {0..<orig_n g})"

definition new_index :: "int \<Rightarrow> int \<Rightarrow> int" where
  "new_index j k = (if k < j then k else k - 1)"

section \<open>Branch and bound (branch_and_bound.cpp)\<close>

text \<open>
  \<^verbatim>\<open>struct ColoringSolution { int numColors; vector<int> coloring; }\<close>, whose default
  constructor sets \<^verbatim>\<open>numColors\<close> to \<^verbatim>\<open>INF\<close> (called \<open>INF_int\<close> here).

  The globals the search touches are \<^verbatim>\<open>searchCompleted\<close> and the clock. The clock is
  an input of the model: \<open>elapsed k\<close> is the time since \<^verbatim>\<open>startTime\<close> that the \<open>k\<close>-th
  call of \<^verbatim>\<open>steady_clock::now()\<close> observes, and \<open>clock_reads\<close> counts the calls made so
  far. Times and the time limit are values of any linearly ordered type; the comparison
  \<^verbatim>\<open>>=\<close> of the code is on \<^verbatim>\<open>double\<close>, which is such an order away from NaN.

  The log line of a node only writes to \<^verbatim>\<open>logStream\<close>; the model keeps its clock read
  and drops the text. The model is sequential: the two child calls run in program order,
  which is what the code does when \<^verbatim>\<open>doParallel\<close> is false and one admissible schedule
  of the two OpenMP tasks otherwise, and the critical section that updates the best
  solution is the function \<open>update_best\<close>. The first argument of \<open>branchAndBound\<close> and
  \<open>decomposeBnb\<close> bounds the depth of the recursion.
\<close>

record solution =
  numColors :: int
  coloring :: "int list"

definition INF_int :: int where
  "INF_int = 1000000000"

definition ColoringSolution :: solution where
  "ColoringSolution = \<lparr>numColors = INF_int, coloring = []\<rparr>"

record globals =
  searchCompleted :: bool
  clock_reads :: nat

definition lift_body :: "int list \<Rightarrow> int \<Rightarrow> int \<Rightarrow> int list \<Rightarrow> error + int list" where
  "lift_body colors i orig best_coloring =
     (case vec_at colors i of Inl e \<Rightarrow> Inl e | Inr ci \<Rightarrow> vec_put best_coloring orig ci)"

definition lift_row :: "graph \<Rightarrow> int list \<Rightarrow> int \<Rightarrow> int list \<Rightarrow> error + int list" where
  "lift_row g colors i best_coloring =
     (case vec_at (mapping g) i of
        Inl e \<Rightarrow> Inl e
      | Inr mi \<Rightarrow> for_each mi (lift_body colors i) best_coloring)"

definition update_best :: "graph \<Rightarrow> int \<Rightarrow> int list \<Rightarrow> solution \<Rightarrow> error + solution" where
  "update_best g ub colors best =
     (if ub < numColors best then
        (if orig_n g < 0 then Inl LengthError
         else
           (case for_range 0 (cur_n g) (lift_row g colors) (replicate (nat (orig_n g)) (- 1)) of
              Inl e \<Rightarrow> Inl e
            | Inr lifted \<Rightarrow> Inr \<lparr>numColors = ub, coloring = lifted\<rparr>))
      else Inr best)"

fun branchAndBound ::
  "nat \<Rightarrow> (nat \<Rightarrow> 't::linorder) \<Rightarrow> 't \<Rightarrow> graph \<Rightarrow> int \<Rightarrow> globals \<times> solution
     \<Rightarrow> error + globals \<times> solution" where
  "branchAndBound 0 elapsed timeLimit g depth st = Inl OutOfFuel"
| "branchAndBound (Suc fuel) elapsed timeLimit g depth st =
     (case st of (gl, bestSolution) \<Rightarrow>
        if elapsed (clock_reads gl) \<ge> timeLimit then
          Inr (gl\<lparr>searchCompleted := False, clock_reads := clock_reads gl + 1\<rparr>, bestSolution)
        else
          (case heuristicMaxClique fuel g of
             Inl e \<Rightarrow> Inl e
           | Inr (lb, clique) \<Rightarrow>
               (case heuristicColoring g of
                  Inl e \<Rightarrow> Inl e
                | Inr (ub, colors) \<Rightarrow>
                    (case update_best g ub colors bestSolution of
                       Inl e \<Rightarrow> Inl e
                     | Inr best1 \<Rightarrow>
                         let gl1 = gl\<lparr>clock_reads := clock_reads gl + 2\<rparr> in
                         if lb = ub then Inr (gl1, best1)
                         else if lb \<ge> numColors best1 then Inr (gl1, best1)
                         else
                           (case selectBranchingPair g of
                              Inl e \<Rightarrow> Inl e
                            | Inr (v1, v2) \<Rightarrow>
                                if v1 = - 1 then Inr (gl1, best1)
                                else
                                  (case mergeVertices g v1 v2 of
                                     Inl e \<Rightarrow> Inl e
                                   | Inr childMerge \<Rightarrow>
                                       (case addEdge g v1 v2 of
                                          Inl e \<Rightarrow> Inl e
                                        | Inr childEdge \<Rightarrow>
                                            (case branchAndBound fuel elapsed timeLimit childMerge
                                                    (depth + 1) (gl1, best1) of
                                               Inl e \<Rightarrow> Inl e
                                             | Inr st2 \<Rightarrow>
                                                 branchAndBound fuel elapsed timeLimit childEdge
                                                   (depth + 1) st2))))))))"

fun decomposeBnb ::
  "nat \<Rightarrow> (nat \<Rightarrow> 't::linorder) \<Rightarrow> 't \<Rightarrow> graph \<Rightarrow> int \<Rightarrow> int \<Rightarrow> solution
     \<Rightarrow> globals \<times> graph list \<Rightarrow> error + globals \<times> graph list" where
  "decomposeBnb 0 elapsed timeLimit g depth decompDepth dummySolution st = Inl OutOfFuel"
| "decomposeBnb (Suc fuel) elapsed timeLimit g depth decompDepth dummySolution st =
     (case st of (gl, tasks) \<Rightarrow>
        let gl1 = gl\<lparr>clock_reads := clock_reads gl + 1\<rparr> in
        if elapsed (clock_reads gl) \<ge> timeLimit then Inr (gl1, tasks)
        else if depth \<ge> decompDepth then Inr (gl1, tasks @ [g])
        else
          (case heuristicMaxClique fuel g of
             Inl e \<Rightarrow> Inl e
           | Inr (lb, clique) \<Rightarrow>
               (case heuristicColoring g of
                  Inl e \<Rightarrow> Inl e
                | Inr (ub, colors) \<Rightarrow>
                    if lb = ub then Inr (gl1, tasks)
                    else if lb \<ge> numColors dummySolution then Inr (gl1, tasks)
                    else
                      (case selectBranchingPair g of
                         Inl e \<Rightarrow> Inl e
                       | Inr (v1, v2) \<Rightarrow>
                           if v1 = - 1 then Inr (gl1, tasks)
                           else
                             (case mergeVertices g v1 v2 of
                                Inl e \<Rightarrow> Inl e
                              | Inr childMerge \<Rightarrow>
                                  (case addEdge g v1 v2 of
                                     Inl e \<Rightarrow> Inl e
                                   | Inr childEdge \<Rightarrow>
                                       (case decomposeBnb fuel elapsed timeLimit childMerge
                                               (depth + 1) decompDepth dummySolution (gl1, tasks) of
                                          Inl e \<Rightarrow> Inl e
                                        | Inr st2 \<Rightarrow>
                                            decomposeBnb fuel elapsed timeLimit childEdge
                                              (depth + 1) decompDepth dummySolution st2)))))))"

section \<open>Components and the driver (graph.cpp, main.cpp)\<close>

text \<open>
  \<^verbatim>\<open>findConnectedComponents\<close> (the \<^verbatim>\<open>while (!Q.empty())\<close> loop takes a bound on its
  iterations), \<^verbatim>\<open>extractSubgraph\<close>, and the part of \<^verbatim>\<open>main\<close> between reading the graph
  and writing the report, for one MPI process (rank 0 of 1, so that every task is its own
  and each reduction and broadcast is the identity), its OpenMP tasks in program order.
  \<open>solve\<close> returns the globals with \<^verbatim>\<open>globalBestColors\<close> and \<^verbatim>\<open>globalColoring\<close>.
\<close>

definition visit_body ::
  "int \<Rightarrow> bool list \<times> int list \<times> int list \<Rightarrow> error + bool list \<times> int list \<times> int list" where
  "visit_body w st =
     (case st of (visited, Q, cmp) \<Rightarrow>
        (case vec_at visited w of
           Inl e \<Rightarrow> Inl e
         | Inr vw \<Rightarrow>
             if \<not> vw then
               (case vec_put visited w True of
                  Inl e \<Rightarrow> Inl e
                | Inr visited' \<Rightarrow> Inr (visited', Q @ [w], cmp @ [w]))
             else Inr (visited, Q, cmp)))"

fun bfs_loop ::
  "nat \<Rightarrow> graph \<Rightarrow> bool list \<times> int list \<times> int list \<Rightarrow> error + bool list \<times> int list" where
  "bfs_loop fuel g (visited, [], cmp) = Inr (visited, cmp)"
| "bfs_loop 0 g (visited, v # Q, cmp) = Inl OutOfFuel"
| "bfs_loop (Suc fuel) g (visited, v # Q, cmp) =
     (case vec_at (adj g) v of
        Inl e \<Rightarrow> Inl e
      | Inr av \<Rightarrow>
          (case for_each av visit_body (visited, Q, cmp) of
             Inl e \<Rightarrow> Inl e
           | Inr st \<Rightarrow> bfs_loop fuel g st))"

definition component_body ::
  "nat \<Rightarrow> graph \<Rightarrow> int \<Rightarrow> bool list \<times> int list list \<Rightarrow> error + bool list \<times> int list list" where
  "component_body fuel g start st =
     (case st of (visited, components) \<Rightarrow>
        (case vec_at visited start of
           Inl e \<Rightarrow> Inl e
         | Inr vs \<Rightarrow>
             if \<not> vs then
               (case vec_put visited start True of
                  Inl e \<Rightarrow> Inl e
                | Inr visited1 \<Rightarrow>
                    (case bfs_loop fuel g (visited1, [start], [start]) of
                       Inl e \<Rightarrow> Inl e
                     | Inr (visited2, cmp) \<Rightarrow> Inr (visited2, components @ [cmp])))
             else Inr (visited, components)))"

definition findConnectedComponents :: "nat \<Rightarrow> graph \<Rightarrow> error + int list list" where
  "findConnectedComponents fuel g =
     (if cur_n g < 0 then Inl LengthError
      else
        (case for_range 0 (cur_n g) (component_body fuel g)
                (replicate (nat (cur_n g)) False, []) of
           Inl e \<Rightarrow> Inl e
         | Inr (visited, components) \<Rightarrow> Inr components))"

definition sub_mapping_body ::
  "graph \<Rightarrow> int list \<Rightarrow> int \<Rightarrow> int list list \<Rightarrow> error + int list list" where
  "sub_mapping_body fullG vertices i subMapping =
     (case vec_at vertices i of
        Inl e \<Rightarrow> Inl e
      | Inr vi \<Rightarrow>
          (case vec_at (mapping fullG) vi of
             Inl e \<Rightarrow> Inl e
           | Inr m \<Rightarrow> vec_put subMapping i m))"

definition sub_adj_body ::
  "graph \<Rightarrow> int list \<Rightarrow> int \<Rightarrow> int \<Rightarrow> int list list \<Rightarrow> error + int list list" where
  "sub_adj_body fullG vertices i j subAdj =
     (case vec_at vertices i of
        Inl e \<Rightarrow> Inl e
      | Inr oldi \<Rightarrow>
          (case vec_at vertices j of
             Inl e \<Rightarrow> Inl e
           | Inr oldj \<Rightarrow>
               (case vec_at (adj fullG) oldi of
                  Inl e \<Rightarrow> Inl e
                | Inr ao \<Rightarrow>
                    if uset_count ao oldj then
                      (case vec_upd subAdj i (uset_insert j) of
                         Inl e \<Rightarrow> Inl e
                       | Inr adj1 \<Rightarrow> vec_upd adj1 j (uset_insert i))
                    else Inr subAdj)))"

definition extractSubgraph :: "graph \<Rightarrow> int list \<Rightarrow> error + graph" where
  "extractSubgraph fullG vertices =
     (case Graph (int (length vertices)) of
        Inl e \<Rightarrow> Inl e
      | Inr subG \<Rightarrow>
          (case for_range 0 (int (length vertices)) (sub_mapping_body fullG vertices)
                  (mapping subG) of
             Inl e \<Rightarrow> Inl e
           | Inr subMapping \<Rightarrow>
               (case for_range 0 (int (length vertices))
                       (\<lambda>i. for_range (i + 1) (int (length vertices))
                              (sub_adj_body fullG vertices i))
                       (adj subG) of
                  Inl e \<Rightarrow> Inl e
                | Inr subAdj \<Rightarrow>
                    Inr (subG\<lparr>orig_n := orig_n fullG, adj := subAdj, mapping := subMapping\<rparr>))))"

definition copy_color_body :: "solution \<Rightarrow> int \<Rightarrow> int list \<Rightarrow> error + int list" where
  "copy_color_body compBest v localColoring =
     (case vec_at (coloring compBest) v of
        Inl e \<Rightarrow> Inl e
      | Inr c \<Rightarrow> vec_put localColoring v c)"

definition component_task ::
  "nat \<Rightarrow> (nat \<Rightarrow> 't::linorder) \<Rightarrow> 't \<Rightarrow> graph \<Rightarrow> int list \<Rightarrow> globals \<times> int \<times> int list
     \<Rightarrow> error + globals \<times> int \<times> int list" where
  "component_task fuel elapsed timeLimit fullGraph cmp st =
     (case st of (gl, localBestColors, localColoring) \<Rightarrow>
        (case extractSubgraph fullGraph cmp of
           Inl e \<Rightarrow> Inl e
         | Inr subG \<Rightarrow>
             (case branchAndBound fuel elapsed timeLimit subG 0 (gl, ColoringSolution) of
                Inl e \<Rightarrow> Inl e
              | Inr (gl', compBest) \<Rightarrow>
                  (case for_each cmp (copy_color_body compBest) localColoring of
                     Inl e \<Rightarrow> Inl e
                   | Inr localColoring' \<Rightarrow>
                       Inr (gl', max localBestColors (numColors compBest), localColoring')))))"

definition run_task ::
  "nat \<Rightarrow> (nat \<Rightarrow> 't::linorder) \<Rightarrow> 't \<Rightarrow> graph \<Rightarrow> globals \<times> solution
     \<Rightarrow> error + globals \<times> solution" where
  "run_task fuel elapsed timeLimit task st = branchAndBound fuel elapsed timeLimit task 2 st"

definition solve ::
  "nat \<Rightarrow> (nat \<Rightarrow> 't::linorder) \<Rightarrow> 't \<Rightarrow> graph \<Rightarrow> globals \<Rightarrow> error + globals \<times> int \<times> int list" where
  "solve fuel elapsed timeLimit fullGraph gl =
     (case findConnectedComponents fuel fullGraph of
        Inl e \<Rightarrow> Inl e
      | Inr components \<Rightarrow>
          if orig_n fullGraph < 0 then Inl LengthError
          else if length components > 1 then
            for_each components (component_task fuel elapsed timeLimit fullGraph)
              (gl, 0, replicate (nat (orig_n fullGraph)) (- 1))
          else
            (case vec_at components 0 of
               Inl e \<Rightarrow> Inl e
             | Inr cmp0 \<Rightarrow>
                 (case extractSubgraph fullGraph cmp0 of
                    Inl e \<Rightarrow> Inl e
                  | Inr subG \<Rightarrow>
                      (case decomposeBnb fuel elapsed timeLimit subG 0 2 ColoringSolution
                              (gl, []) of
                         Inl e \<Rightarrow> Inl e
                       | Inr (gl1, tasks) \<Rightarrow>
                           (case for_each (if tasks = [] then [subG] else tasks)
                                   (run_task fuel elapsed timeLimit) (gl1, ColoringSolution) of
                              Inl e \<Rightarrow> Inl e
                            | Inr (gl2, localBest) \<Rightarrow>
                                Inr (gl2, numColors localBest, coloring localBest))))))"

section \<open>Graphs of the search and the original graph\<close>

text \<open>
  An input graph is what \<^verbatim>\<open>readGraphFromCOLFile\<close> builds: \<^verbatim>\<open>Graph(n)\<close>, where vertex
  \<open>i\<close> is mapped to itself and \<open>orig_n = n\<close>, with edges inserted in both directions
  between distinct vertices in range. The graphs of the search are reached from it by
  \<open>mergeVertices\<close> and \<open>addEdge\<close> on pairs of distinct non-adjacent vertices. Such a graph
  represents the input graph when it satisfies the invariants of the data model and every
  edge of the input graph joins original vertices whose current vertices are adjacent.
\<close>

definition original :: "graph \<Rightarrow> bool" where
  "original g0 =
     (valid_adj g0 \<and> orig_n g0 = cur_n g0 \<and> mapping g0 = map (\<lambda>i. [i]) [0..cur_n g0 - 1])"

inductive reachable :: "graph \<Rightarrow> graph \<Rightarrow> bool" for g0 :: graph where
  start: "reachable g0 g0"
| merge: "reachable g0 g \<Longrightarrow> 0 \<le> i \<Longrightarrow> i < cur_n g \<Longrightarrow> 0 \<le> j \<Longrightarrow> j < cur_n g \<Longrightarrow> i \<noteq> j \<Longrightarrow>
          \<not> uset_count (adj g ! nat i) j \<Longrightarrow> mergeVertices g i j = Inr g' \<Longrightarrow> reachable g0 g'"
| edge: "reachable g0 g \<Longrightarrow> 0 \<le> i \<Longrightarrow> i < cur_n g \<Longrightarrow> 0 \<le> j \<Longrightarrow> j < cur_n g \<Longrightarrow> i \<noteq> j \<Longrightarrow>
         \<not> uset_count (adj g ! nat i) j \<Longrightarrow> addEdge g i j = Inr g' \<Longrightarrow> reachable g0 g'"

definition covers_edges :: "graph \<Rightarrow> graph \<Rightarrow> bool" where
  "covers_edges g0 g =
     (\<forall>p \<in> {0..<cur_n g}. \<forall>q \<in> {0..<cur_n g}.
        \<forall>x \<in> set (mapping g ! nat p). \<forall>y \<in> set (mapping g ! nat q).
          y \<in> set (adj g0 ! nat x) \<longrightarrow> q \<in> set (adj g ! nat p))"

definition represents :: "graph \<Rightarrow> graph \<Rightarrow> bool" where
  "represents g0 g =
     (valid_adj g \<and> valid_mapping g \<and> orig_n g = cur_n g0 \<and> covers_edges g0 g)"

text \<open>
  What the search keeps true of its best solution: it is the initial one, or its colouring
  is a proper colouring of the input graph with every entry in \<open>[0, numColors)\<close>.
\<close>

definition solution_ok :: "graph \<Rightarrow> solution \<Rightarrow> bool" where
  "solution_ok g0 best =
     (best = ColoringSolution \<or>
      (length (coloring best) = nat (cur_n g0) \<and>
       (\<forall>u \<in> {0..<cur_n g0}. \<forall>w \<in> set (adj g0 ! nat u).
          coloring best ! nat u \<noteq> coloring best ! nat w) \<and>
       (\<forall>c \<in> set (coloring best). 0 \<le> c \<and> c < numColors best)))"

section \<open>Facts about vectors and hash sets\<close>

lemma vec_at_in [simp]:
  "0 \<le> i \<Longrightarrow> i < int (length xs) \<Longrightarrow> vec_at xs i = Inr (xs ! nat i)"
  by (simp add: vec_at_def)

lemma vec_put_in [simp]:
  "0 \<le> i \<Longrightarrow> i < int (length xs) \<Longrightarrow> vec_put xs i x = Inr (xs[nat i := x])"
  by (simp add: vec_put_def)

lemma vec_upd_in [simp]:
  "0 \<le> i \<Longrightarrow> i < int (length xs) \<Longrightarrow> vec_upd xs i f = Inr (xs[nat i := f (xs ! nat i)])"
  by (simp add: vec_upd_def)

lemma vec_at_neg [simp]: "i < 0 \<Longrightarrow> vec_at xs i = Inl OutOfBounds"
  by (simp add: vec_at_def)

lemma vec_upd_neg [simp]: "i < 0 \<Longrightarrow> vec_upd xs i f = Inl OutOfBounds"
  by (simp add: vec_upd_def)

lemma set_uset_insert [simp]: "set (uset_insert x s) = insert x (set s)"
  by (auto simp: uset_insert_def)

lemma distinct_uset_insert [simp]: "distinct s \<Longrightarrow> distinct (uset_insert x s)"
  by (simp add: uset_insert_def)

lemma uset_insert_present [simp]: "x \<in> set s \<Longrightarrow> uset_insert x s = s"
  by (simp add: uset_insert_def)

lemma uset_insert_twice [simp]: "uset_insert x (uset_insert x s) = uset_insert x s"
  by (simp add: uset_insert_def)

text \<open>
  The loop rules: an invariant that holds before a loop and is kept by every iteration,
  which must not fault, holds after the loop, and the loop does not fault. The invariant
  of a counted loop speaks of the counter, that of a loop over a container of the elements
  passed so far.
\<close>

lemma for_range_rule:
  assumes "lo \<le> hi" "I lo s"
    and "\<And>i s. lo \<le> i \<Longrightarrow> i < hi \<Longrightarrow> I i s \<Longrightarrow> \<exists>s'. body i s = Inr s' \<and> I (i + 1) s'"
  shows "\<exists>s'. for_range lo hi body s = Inr s' \<and> I hi s'"
  using assms
proof (induction lo hi body s rule: for_range.induct)
  case (1 lo hi body s)
  show ?case
  proof (cases "lo < hi")
    case True
    then obtain s1 where s1: "body lo s = Inr s1" "I (lo + 1) s1"
      using "1.prems" by force
    have "\<exists>s'. for_range (lo + 1) hi body s1 = Inr s' \<and> I hi s'"
      using True s1 "1.prems"(3) by (intro "1.IH") auto
    then show ?thesis
      using True s1 by (subst for_range.simps) simp
  next
    case False
    then show ?thesis
      using "1.prems" by (subst for_range.simps) simp
  qed
qed

lemma for_each_rule_aux:
  assumes "I pre s"
    and "\<And>p x s. I p s \<Longrightarrow> x \<in> set xs \<Longrightarrow> \<exists>s'. body x s = Inr s' \<and> I (p @ [x]) s'"
  shows "\<exists>s'. for_each xs body s = Inr s' \<and> I (pre @ xs) s'"
  using assms
proof (induction xs arbitrary: pre s)
  case Nil
  then show ?case by simp
next
  case (Cons x xs)
  obtain s1 where s1: "body x s = Inr s1" "I (pre @ [x]) s1"
    using Cons.prems by force
  have "\<exists>s'. for_each xs body s1 = Inr s' \<and> I ((pre @ [x]) @ xs) s'"
    using s1(2) Cons.prems(2) by (intro Cons.IH) auto
  then show ?case using s1(1) by simp
qed

lemma for_each_rule:
  assumes "I [] s"
    and "\<And>p x s. I p s \<Longrightarrow> x \<in> set xs \<Longrightarrow> \<exists>s'. body x s = Inr s' \<and> I (p @ [x]) s'"
  shows "\<exists>s'. for_each xs body s = Inr s' \<and> I xs s'"
  using for_each_rule_aux [of I "[]" s xs body] assms by simp

section \<open>addEdge\<close>

lemma addEdge_in_range:
  assumes "int (length (adj g)) = cur_n g" "0 \<le> i" "i < cur_n g" "0 \<le> j" "j < cur_n g"
  shows "addEdge g i j =
     Inr (g\<lparr>adj := ((adj g)[nat i := uset_insert j (adj g ! nat i)])
                [nat j := uset_insert i (((adj g)[nat i := uset_insert j (adj g ! nat i)]) ! nat j)]\<rparr>)"
  using assms by (simp add: addEdge_def)

lemma addEdge_above_range:
  "cur_n g \<le> i \<or> cur_n g \<le> j \<Longrightarrow> addEdge g i j = Inr g"
  by (auto simp: addEdge_def)

text \<open>
  C9. For a graph whose adjacency vector has \<open>n\<close> entries and \<open>i\<close>, \<open>j\<close> in \<open>[0, n)\<close>,
  \<open>addEdge\<close> returns a graph, a second \<open>addEdge\<close> of the same pair returns that graph
  again, and when \<open>j\<close> is already in \<open>adj[i]\<close> and \<open>i\<close> in \<open>adj[j]\<close> the first call
  returns the graph it was given (so \<open>n\<close>, \<open>orig_n\<close>, \<open>mapping\<close> and every adjacency set
  are unchanged).
\<close>

theorem addEdge_idempotent:
  assumes "int (length (adj g)) = cur_n g" "0 \<le> i" "i < cur_n g" "0 \<le> j" "j < cur_n g"
  shows "\<exists>g1. addEdge g i j = Inr g1 \<and> addEdge g1 i j = Inr g1 \<and>
           cur_n g1 = cur_n g \<and> orig_n g1 = orig_n g \<and> mapping g1 = mapping g \<and>
           (uset_count (adj g ! nat i) j \<and> uset_count (adj g ! nat j) i \<longrightarrow> g1 = g)"
proof -
  let ?a1 = "(adj g)[nat i := uset_insert j (adj g ! nat i)]"
  let ?a2 = "?a1[nat j := uset_insert i (?a1 ! nat j)]"
  let ?g1 = "g\<lparr>adj := ?a2\<rparr>"
  have first: "addEdge g i j = Inr ?g1"
    using assms by (rule addEdge_in_range)
  have li: "nat i < length (adj g)" and lj: "nat j < length (adj g)"
    using assms by auto
  have ji: "j \<in> set (?a2 ! nat i)"
    using li lj by (cases "nat i = nat j") (simp_all add: nth_list_update)
  have ij: "i \<in> set (?a2 ! nat j)"
    using li lj by simp
  have "?a2[nat i := uset_insert j (?a2 ! nat i)] = ?a2"
    using ji by (simp add: list_update_same_conv)
  moreover have "?a2[nat j := uset_insert i (?a2 ! nat j)] = ?a2"
    using ij by (simp add: list_update_same_conv del: nth_list_update_eq)
  ultimately have second: "addEdge ?g1 i j = Inr ?g1"
    using assms addEdge_in_range [of ?g1 i j] by simp
  have same: "?g1 = g" if "uset_count (adj g ! nat i) j" "uset_count (adj g ! nat j) i"
    using that li lj by (simp add: uset_count_def list_update_same_conv)
  show ?thesis
    using first second same by (intro exI [of _ ?g1]) simp
qed

theorem addEdge_idempotent_witness:
  "addEdge \<lparr>cur_n = 2, orig_n = 2, adj = [[], []], mapping = [[0], [1]]\<rparr> 0 1
     = Inr \<lparr>cur_n = 2, orig_n = 2, adj = [[1], [0]], mapping = [[0], [1]]\<rparr> \<and>
   addEdge \<lparr>cur_n = 2, orig_n = 2, adj = [[1], [0]], mapping = [[0], [1]]\<rparr> 0 1
     = Inr \<lparr>cur_n = 2, orig_n = 2, adj = [[1], [0]], mapping = [[0], [1]]\<rparr>"
  using addEdge_idempotent [of "\<lparr>cur_n = 2, orig_n = 2, adj = [[], []], mapping = [[0], [1]]\<rparr>" 0 1]
    addEdge_idempotent [of "\<lparr>cur_n = 2, orig_n = 2, adj = [[1], [0]], mapping = [[0], [1]]\<rparr>" 0 1]
  by (simp add: addEdge_def uset_insert_def uset_count_def)

text \<open>
  C10. The guard of \<open>addEdge\<close> tests \<^verbatim>\<open>i < n && j < n\<close> only. On the one-vertex graph
  \<^verbatim>\<open>Graph(1)\<close> the call \<^verbatim>\<open>addEdge(-1, 0)\<close> passes the guard and indexes \<^verbatim>\<open>adj[-1]\<close>.
\<close>

theorem addEdge_negative_index_faults:
  "Graph 1 = Inr \<lparr>cur_n = 1, orig_n = 1, adj = [[]], mapping = [[0]]\<rparr> \<and>
   addEdge \<lparr>cur_n = 1, orig_n = 1, adj = [[]], mapping = [[0]]\<rparr> (- 1) 0 = Inl OutOfBounds"
  by (simp add: Graph_def addEdge_def upto.simps)

section \<open>selectBranchingPair\<close>

lemma deg_sum_nonneg: "0 \<le> deg_sum g a b"
  by (simp add: deg_sum_def uset_size_def)

lemma scanned_step:
  "scanned g i (j + 1) = scanned g i j \<union> (if nonadj g i j then {(i, j)} else {})"
proof -
  have "b < j + 1 \<longleftrightarrow> b < j \<or> b = j" for b
    by auto
  then show ?thesis
    by (auto simp: scanned_def)
qed

lemma degrees_loop:
  assumes "0 \<le> cur_n g" "int (length (adj g)) = cur_n g"
  shows "\<exists>ds. for_range 0 (cur_n g) (degrees_body g) (replicate (nat (cur_n g)) 0) = Inr ds \<and>
           length ds = nat (cur_n g) \<and>
           (\<forall>k. 0 \<le> k \<and> k < cur_n g \<longrightarrow> ds ! nat k = uset_size (adj g ! nat k))"
proof -
  let ?I = "\<lambda>i ds. length ds = nat (cur_n g) \<and>
              (\<forall>k. 0 \<le> k \<and> k < i \<longrightarrow> ds ! nat k = uset_size (adj g ! nat k))"
  have "\<exists>ds. for_range 0 (cur_n g) (degrees_body g) (replicate (nat (cur_n g)) 0) = Inr ds \<and>
          ?I (cur_n g) ds"
  proof (rule for_range_rule [where I = ?I])
    show "0 \<le> cur_n g" by fact
    show "?I 0 (replicate (nat (cur_n g)) 0)" by simp
  next
    fix i ds
    assume i: "0 \<le> i" "i < cur_n g" and inv: "?I i ds"
    have eq: "degrees_body g i ds = Inr (ds[nat i := uset_size (adj g ! nat i)])"
      using i inv assms by (simp add: degrees_body_def)
    have "?I (i + 1) (ds[nat i := uset_size (adj g ! nat i)])"
    proof (intro conjI allI impI)
      fix k assume k: "0 \<le> k \<and> k < i + 1"
      show "ds[nat i := uset_size (adj g ! nat i)] ! nat k = uset_size (adj g ! nat k)"
      proof (cases "k = i")
        case True
        then show ?thesis using i inv by simp
      next
        case False
        then have "nat k \<noteq> nat i" "k < i" using k i by auto
        then show ?thesis using inv k by simp
      qed
    qed (use inv in simp)
    then show "\<exists>s'. degrees_body g i ds = Inr s' \<and> ?I (i + 1) s'"
      using eq by simp
  qed
  then show ?thesis by blast
qed

lemma select_body_step:
  assumes shape: "int (length (adj g)) = cur_n g"
    and ds: "length ds = nat (cur_n g)"
      "\<forall>k. 0 \<le> k \<and> k < cur_n g \<longrightarrow> ds ! nat k = uset_size (adj g ! nat k)"
    and ij: "0 \<le> i" "i < j" "j < cur_n g"
    and inv: "best_of g (scanned g i j) st"
  shows "\<exists>st'. select_body g ds i j st = Inr st' \<and> best_of g (scanned g i (j + 1)) st'"
proof -
  obtain v1 v2 best where st: "st = (v1, v2, best)"
    by (cases st) auto
  have di: "vec_at ds i = Inr (uset_size (adj g ! nat i))"
    and dj: "vec_at ds j = Inr (uset_size (adj g ! nat j))"
    and ai: "vec_at (adj g) i = Inr (adj g ! nat i)"
    using ds ij shape by auto
  have below: "a < i \<or> (a = i \<and> b < j)" if "(a, b) \<in> scanned g i j" for a b
    using that by (simp add: scanned_def)
  show ?thesis
  proof (cases "nonadj g i j")
    case False
    then have adjacent: "uset_count (adj g ! nat i) j"
      using ij by (simp add: nonadj_def)
    have "select_body g ds i j st = Inr st"
      using adjacent ai by (simp add: select_body_def st)
    moreover have "scanned g i (j + 1) = scanned g i j"
      using False by (simp add: scanned_step)
    ultimately show ?thesis using inv by simp
  next
    case True
    then have free: "\<not> uset_count (adj g ! nat i) j"
      by (simp add: nonadj_def)
    have sc: "scanned g i (j + 1) = insert (i, j) (scanned g i j)"
      using True by (simp add: scanned_step)
    show ?thesis
    proof (cases "deg_sum g i j > best")
      case better: True
      have run: "select_body g ds i j st = Inr (i, j, deg_sum g i j)"
        using free ai di dj better by (simp add: select_body_def st deg_sum_def Let_def)
      have "best_of g (insert (i, j) (scanned g i j)) (i, j, deg_sum g i j)"
        using inv better below unfolding best_of_def st
        by (auto simp: deg_sum_nonneg)
      then show ?thesis using run sc by simp
    next
      case worse: False
      have run: "select_body g ds i j st = Inr st"
        using free ai di dj worse by (simp add: select_body_def st deg_sum_def Let_def)
      have nonempty: "scanned g i j \<noteq> {}"
      proof
        assume "scanned g i j = {}"
        then have "best = - 1" using inv by (simp add: best_of_def st)
        then show False using worse deg_sum_nonneg [of g i j] by simp
      qed
      have "best_of g (insert (i, j) (scanned g i j)) st"
        using inv worse nonempty below unfolding best_of_def st
        by (fastforce split: prod.splits)
      then show ?thesis using run sc by simp
    qed
  qed
qed


lemma scanned_row_end: "scanned g (i + 1) (i + 2) = scanned g i (cur_n g)"
  by (auto simp: scanned_def nonadj_def)

lemma scanned_empty: "scanned g 0 1 = {}"
  by (auto simp: scanned_def nonadj_def)

lemma scanned_all: "scanned g (cur_n g) (cur_n g + 1) = {(a, b). nonadj g a b}"
  by (auto simp: scanned_def nonadj_def)

lemma select_row:
  assumes shape: "int (length (adj g)) = cur_n g"
    and ds: "length ds = nat (cur_n g)"
      "\<forall>k. 0 \<le> k \<and> k < cur_n g \<longrightarrow> ds ! nat k = uset_size (adj g ! nat k)"
    and i: "0 \<le> i" "i < cur_n g"
    and inv: "best_of g (scanned g i (i + 1)) st"
  shows "\<exists>st'. for_range (i + 1) (cur_n g) (select_body g ds i) st = Inr st' \<and>
           best_of g (scanned g (i + 1) (i + 1 + 1)) st'"
proof -
  have "\<exists>st'. for_range (i + 1) (cur_n g) (select_body g ds i) st = Inr st' \<and>
          best_of g (scanned g i (cur_n g)) st'"
  proof (rule for_range_rule [where I = "\<lambda>j. best_of g (scanned g i j)"])
    show "i + 1 \<le> cur_n g" using i by simp
    show "best_of g (scanned g i (i + 1)) st" by fact
  next
    fix j s
    assume "i + 1 \<le> j" "j < cur_n g" "best_of g (scanned g i j) s"
    then show "\<exists>s'. select_body g ds i j s = Inr s' \<and> best_of g (scanned g i (j + 1)) s'"
      using select_body_step [OF shape ds, of i j s] i by simp
  qed
  then show ?thesis
    using scanned_row_end [of g i] by (simp add: add.commute)
qed

lemma selectBranchingPair_spec:
  assumes "0 \<le> cur_n g" "int (length (adj g)) = cur_n g"
  shows "\<exists>v1 v2. selectBranchingPair g = Inr (v1, v2) \<and>
           ((v1 = - 1 \<and> v2 = - 1 \<and> (\<forall>i j. \<not> nonadj g i j)) \<or>
            (nonadj g v1 v2 \<and>
             (\<forall>i j. nonadj g i j \<longrightarrow>
                deg_sum g i j \<le> deg_sum g v1 v2 \<and>
                (deg_sum g i j = deg_sum g v1 v2 \<longrightarrow> v1 < i \<or> (v1 = i \<and> v2 \<le> j)))))"
proof -
  obtain ds where ds: "for_range 0 (cur_n g) (degrees_body g) (replicate (nat (cur_n g)) 0) = Inr ds"
    "length ds = nat (cur_n g)"
    "\<forall>k. 0 \<le> k \<and> k < cur_n g \<longrightarrow> ds ! nat k = uset_size (adj g ! nat k)"
    using degrees_loop [OF assms] by blast
  have "\<exists>st. for_range 0 (cur_n g)
            (\<lambda>i. for_range (i + 1) (cur_n g) (select_body g ds i)) (- 1, - 1, - 1) = Inr st \<and>
          best_of g (scanned g (cur_n g) (cur_n g + 1)) st"
  proof (rule for_range_rule [where I = "\<lambda>i. best_of g (scanned g i (i + 1))"])
    show "0 \<le> cur_n g" by fact
    show "best_of g (scanned g 0 (0 + 1)) (- 1, - 1, - 1)"
      by (simp add: scanned_empty best_of_def)
  next
    fix i s
    assume "0 \<le> i" "i < cur_n g" "best_of g (scanned g i (i + 1)) s"
    then show "\<exists>s'. for_range (i + 1) (cur_n g) (select_body g ds i) s = Inr s' \<and>
                 best_of g (scanned g (i + 1) (i + 1 + 1)) s'"
      using select_row [OF assms(2) ds(2,3)] by blast
  qed
  then obtain v1 v2 best where
    run: "for_range 0 (cur_n g)
            (\<lambda>i. for_range (i + 1) (cur_n g) (select_body g ds i)) (- 1, - 1, - 1)
          = Inr (v1, v2, best)"
    and best: "best_of g {(a, b). nonadj g a b} (v1, v2, best)"
    unfolding scanned_all by (metis prod_cases3)
  have res: "selectBranchingPair g = Inr (v1, v2)"
    using assms(1) ds(1) run by (simp add: selectBranchingPair_def)
  from best show ?thesis
    unfolding best_of_def using res by (auto split: prod.splits)
qed

text \<open>
  C8. For a graph whose adjacency vector has \<open>n\<close> entries, \<open>selectBranchingPair\<close> returns
  a pair. Either no pair \<open>i < j\<close> of vertices has \<open>j\<close> outside \<open>adj[i]\<close> and the pair is the
  sentinel \<open>(-1, -1)\<close>; or the pair \<open>(v1, v2)\<close> is such a non-adjacent pair, no non-adjacent
  pair has a larger degree sum, and every non-adjacent pair of the same degree sum comes
  after \<open>(v1, v2)\<close> in the lexicographic order.
\<close>

theorem selectBranchingPair_maximal:
  assumes "0 \<le> cur_n g" "int (length (adj g)) = cur_n g"
  shows "\<exists>v1 v2. selectBranchingPair g = Inr (v1, v2) \<and>
           ((v1 = - 1 \<and> v2 = - 1 \<and> (\<forall>i j. \<not> nonadj g i j)) \<or>
            (nonadj g v1 v2 \<and>
             (\<forall>i j. nonadj g i j \<longrightarrow>
                deg_sum g i j \<le> deg_sum g v1 v2 \<and>
                (deg_sum g i j = deg_sum g v1 v2 \<longrightarrow> v1 < i \<or> (v1 = i \<and> v2 \<le> j)))))"
  using assms by (rule selectBranchingPair_spec)

theorem selectBranchingPair_maximal_witness:
  "selectBranchingPair \<lparr>cur_n = 4, orig_n = 4, adj = [[1], [0, 2], [1], []],
      mapping = [[0], [1], [2], [3]]\<rparr> = Inr (0, 2) \<and>
   nonadj \<lparr>cur_n = 4, orig_n = 4, adj = [[1], [0, 2], [1], []],
      mapping = [[0], [1], [2], [3]]\<rparr> 0 2 \<and>
   selectBranchingPair \<lparr>cur_n = 2, orig_n = 2, adj = [[1], [0]], mapping = [[0], [1]]\<rparr>
     = Inr (- 1, - 1)"
  using selectBranchingPair_maximal [of "\<lparr>cur_n = 4, orig_n = 4, adj = [[1], [0, 2], [1], []],
      mapping = [[0], [1], [2], [3]]\<rparr>"]
    selectBranchingPair_maximal [of "\<lparr>cur_n = 2, orig_n = 2, adj = [[1], [0]], mapping = [[0], [1]]\<rparr>"]
  by (simp add: selectBranchingPair_def for_range.simps degrees_body_def select_body_def
      uset_size_def uset_count_def nonadj_def)

section \<open>heuristicColoring\<close>

lemma used_loop:
  assumes n: "0 \<le> n" and len: "length color = nat n"
    and av: "\<forall>w \<in> set av. 0 \<le> w \<and> w < n"
    and range: "\<forall>u \<in> {0..<n}. - 1 \<le> color ! nat u \<and> color ! nat u < n"
  shows "\<exists>used. for_each av (used_body color) (replicate (nat n) False) = Inr used \<and>
           length used = nat n \<and>
           (\<forall>c \<in> {0..<n}. used ! nat c \<longleftrightarrow> (\<exists>w \<in> set av. color ! nat w = c))"
proof (rule for_each_rule [where I = "\<lambda>pre used. length used = nat n \<and>
           (\<forall>c \<in> {0..<n}. used ! nat c \<longleftrightarrow> (\<exists>w \<in> set pre. color ! nat w = c))"])
  show "length (replicate (nat n) False) = nat n \<and>
    (\<forall>c \<in> {0..<n}. replicate (nat n) False ! nat c \<longleftrightarrow> (\<exists>w \<in> set []. color ! nat w = c))"
    by simp
next
  fix p w used
  assume inv: "length used = nat n \<and>
           (\<forall>c \<in> {0..<n}. used ! nat c \<longleftrightarrow> (\<exists>w \<in> set p. color ! nat w = c))"
    and w: "w \<in> set av"
  have wr: "0 \<le> w" "w < n" using av w by auto
  have cw: "vec_at color w = Inr (color ! nat w)" using wr len by simp
  have cr: "- 1 \<le> color ! nat w" "color ! nat w < n" using range wr by auto
  show "\<exists>s'. used_body color w used = Inr s' \<and> (length s' = nat n \<and>
           (\<forall>c \<in> {0..<n}. s' ! nat c \<longleftrightarrow> (\<exists>w \<in> set (p @ [w]). color ! nat w = c)))"
  proof (cases "color ! nat w = - 1")
    case True
    then have "used_body color w used = Inr used"
      using cw by (simp add: used_body_def)
    moreover have "\<forall>c \<in> {0..<n}. used ! nat c \<longleftrightarrow> (\<exists>w \<in> set (p @ [w]). color ! nat w = c)"
      using inv True by auto
    ultimately show ?thesis using inv by simp
  next
    case False
    then have c0: "0 \<le> color ! nat w" using cr by simp
    then have "used_body color w used = Inr (used[nat (color ! nat w) := True])"
      using cw cr False inv by (simp add: used_body_def)
    moreover have "\<forall>c \<in> {0..<n}. used[nat (color ! nat w) := True] ! nat c
        \<longleftrightarrow> (\<exists>w \<in> set (p @ [w]). color ! nat w = c)"
    proof
      fix c assume c: "c \<in> {0..<n}"
      show "used[nat (color ! nat w) := True] ! nat c
        \<longleftrightarrow> (\<exists>w \<in> set (p @ [w]). color ! nat w = c)"
      proof (cases "c = color ! nat w")
        case True
        then show ?thesis using c inv by auto
      next
        case False
        then have "nat c \<noteq> nat (color ! nat w)" using c c0 by auto
        then show ?thesis using inv c False by auto
      qed
    qed
    ultimately show ?thesis using inv by simp
  qed
qed

lemma first_free_spec:
  assumes "length used = nat n" "0 \<le> c0" "c0 \<le> n"
  shows "\<exists>c. first_free n used c0 = Inr c \<and> c0 \<le> c \<and> c \<le> n \<and>
           (\<forall>c' \<in> {c0..<c}. used ! nat c') \<and> (c < n \<longrightarrow> \<not> used ! nat c)"
  using assms
proof (induction n used c0 rule: first_free.induct)
  case (1 n used c0)
  show ?case
  proof (cases "c0 < n \<and> used ! nat c0")
    case True
    then have at: "vec_at used c0 = Inr True"
      using "1.prems" by simp
    have "\<exists>c. first_free n used (c0 + 1) = Inr c \<and> c0 + 1 \<le> c \<and> c \<le> n \<and>
           (\<forall>c' \<in> {c0 + 1..<c}. used ! nat c') \<and> (c < n \<longrightarrow> \<not> used ! nat c)"
      using True at "1.prems" by (intro "1.IH") auto
    then obtain c where c: "first_free n used (c0 + 1) = Inr c" "c0 + 1 \<le> c" "c \<le> n"
      "\<forall>c' \<in> {c0 + 1..<c}. used ! nat c'" "c < n \<longrightarrow> \<not> used ! nat c"
      by blast
    have "\<forall>c' \<in> {c0..<c}. used ! nat c'"
    proof
      fix c' assume "c' \<in> {c0..<c}"
      then have "c' = c0 \<or> c' \<in> {c0 + 1..<c}" by auto
      then show "used ! nat c'" using True c(4) by auto
    qed
    moreover have "first_free n used c0 = Inr c"
      using True at c(1) by (subst first_free.simps) simp
    ultimately show ?thesis using c by auto
  next
    case False
    then have "first_free n used c0 = Inr c0"
      using "1.prems" by (subst first_free.simps) (auto simp: vec_at_def)
    then show ?thesis using False "1.prems" by auto
  qed
qed

lemma some_color_free:
  assumes v: "0 \<le> v" "v < n" "color ! nat v = - 1"
    and av: "\<forall>w \<in> set av. 0 \<le> w \<and> w < n"
    and used: "\<forall>c \<in> {0..<n}. used ! nat c \<longleftrightarrow> (\<exists>w \<in> set av. color ! nat w = c)"
  shows "\<exists>c \<in> {0..<n}. \<not> used ! nat c"
proof (rule ccontr)
  assume "\<not> (\<exists>c \<in> {0..<n}. \<not> used ! nat c)"
  then have all: "\<forall>c \<in> {0..<n}. \<exists>w \<in> set av. color ! nat w = c"
    using used by blast
  have "{0..<n} \<subseteq> (\<lambda>w. color ! nat w) ` ({0..<n} - {v})"
  proof
    fix c assume c: "c \<in> {0..<n}"
    then obtain w where w: "w \<in> set av" "color ! nat w = c"
      using all by blast
    then have "w \<noteq> v" using v c by auto
    then show "c \<in> (\<lambda>w. color ! nat w) ` ({0..<n} - {v})"
      using w av by auto
  qed
  then have "card {0..<n} \<le> card ((\<lambda>w. color ! nat w) ` ({0..<n} - {v}))"
    by (intro card_mono) auto
  also have "\<dots> \<le> card ({0..<n} - {v})"
    by (intro card_image_le) auto
  also have "\<dots> < card {0..<n}"
    using v by (intro card_Diff1_less) auto
  finally show False by simp
qed

lemma seesC_loop_spec:
  assumes "\<forall>x \<in> set xs. 0 \<le> x \<and> x < int (length color)"
  shows "seesC_loop color c xs = Inr (\<exists>x \<in> set xs. color ! nat x = c)"
  using assms by (induction xs) auto

lemma valid_adj_shape:
  "valid_adj g \<Longrightarrow> 0 \<le> cur_n g \<and> int (length (adj g)) = cur_n g"
  by (simp add: valid_adj_def)

lemma valid_adj_nbr:
  assumes "valid_adj g" "0 \<le> i" "i < cur_n g" "w \<in> set (adj g ! nat i)"
  shows "0 \<le> w \<and> w < cur_n g \<and> w \<noteq> i \<and> i \<in> set (adj g ! nat w)"
proof -
  have "\<forall>i \<in> {0..<cur_n g}. \<forall>w \<in> set (adj g ! nat i).
          0 \<le> w \<and> w < cur_n g \<and> w \<noteq> i \<and> i \<in> set (adj g ! nat w)"
    using assms(1) unfolding valid_adj_def by blast
  moreover have "i \<in> {0..<cur_n g}" using assms by simp
  ultimately show ?thesis using assms(4) by blast
qed

lemma saturation_loop_unchanged:
  assumes g: "valid_adj g" and v: "0 \<le> v" "v < cur_n g"
    and len: "length color = nat (cur_n g)" "length saturation = nat (cur_n g)"
    and cv: "color ! nat v = c"
  shows "for_each (adj g ! nat v) (saturation_body (adj g) color c) saturation = Inr saturation"
proof -
  have "\<exists>s'. for_each (adj g ! nat v) (saturation_body (adj g) color c) saturation = Inr s' \<and>
          s' = saturation"
  proof (rule for_each_rule [where I = "\<lambda>pre s. s = saturation"])
    fix p w s
    assume s: "s = saturation" and w: "w \<in> set (adj g ! nat v)"
    have wr: "0 \<le> w" "w < cur_n g" and vw: "v \<in> set (adj g ! nat w)"
      using valid_adj_nbr [OF g v w] by simp_all
    have inner: "\<forall>x \<in> set (adj g ! nat w). 0 \<le> x \<and> x < int (length color)"
      using valid_adj_nbr [OF g wr] len valid_adj_shape [OF g] by auto
    have "seesC_loop color c (adj g ! nat w) = Inr True"
      using seesC_loop_spec [OF inner, of c] vw cv by auto
    moreover have "vec_at color w = Inr (color ! nat w)" "vec_at (adj g) w = Inr (adj g ! nat w)"
      using wr len valid_adj_shape [OF g] by auto
    ultimately have "saturation_body (adj g) color c w s = Inr s"
      by (simp add: saturation_body_def)
    then show "\<exists>s'. saturation_body (adj g) color c w s = Inr s' \<and> s' = saturation"
      using s by simp
  qed simp
  then show ?thesis by simp
qed

lemma color_step_spec:
  assumes g: "valid_adj g" and inv: "col_inv g color"
    and len: "length saturation = nat (cur_n g)"
    and v: "v \<in> uncolored g color"
  shows "\<exists>c. color_step g v (color, saturation) = Inr (color[nat v := c], saturation) \<and>
           0 \<le> c \<and> c < cur_n g \<and> col_inv g (color[nat v := c]) \<and>
           uncolored g (color[nat v := c]) = uncolored g color - {v}"
proof -
  let ?n = "cur_n g" and ?av = "adj g ! nat v"
  have vr: "0 \<le> v" "v < ?n" and cv: "color ! nat v = - 1"
    using v by (auto simp: uncolored_def)
  have n0: "0 \<le> ?n" and shape: "int (length (adj g)) = ?n"
    using valid_adj_shape [OF g] by simp_all
  have clen: "length color = nat ?n"
    and range: "\<forall>u \<in> {0..<?n}. - 1 \<le> color ! nat u \<and> color ! nat u < ?n"
    and proper: "\<forall>u \<in> {0..<?n}. \<forall>w \<in> set (adj g ! nat u).
         color ! nat u \<noteq> - 1 \<and> color ! nat w \<noteq> - 1 \<longrightarrow> color ! nat u \<noteq> color ! nat w"
    using inv by (auto simp: col_inv_def)
  have av: "\<forall>w \<in> set ?av. 0 \<le> w \<and> w < ?n"
    and noloop: "v \<notin> set ?av"
    and sym: "\<forall>w \<in> set ?av. v \<in> set (adj g ! nat w)"
    using valid_adj_nbr [OF g vr] by auto
  obtain used where used: "for_each ?av (used_body color) (replicate (nat ?n) False) = Inr used"
    "length used = nat ?n"
    "\<forall>c \<in> {0..<?n}. used ! nat c \<longleftrightarrow> (\<exists>w \<in> set ?av. color ! nat w = c)"
    using used_loop [OF n0 clen av range] by blast
  obtain c where c: "first_free ?n used 0 = Inr c" "0 \<le> c" "c \<le> ?n"
    "\<forall>c' \<in> {0..<c}. used ! nat c'" "c < ?n \<longrightarrow> \<not> used ! nat c"
    using first_free_spec [OF used(2) order_refl n0] by blast
  have cn: "c < ?n"
  proof (rule ccontr)
    assume "\<not> c < ?n"
    then have "c = ?n" using c(3) by simp
    then have "\<forall>c' \<in> {0..<?n}. used ! nat c'" using c(4) by simp
    then show False
      using some_color_free [OF vr cv av used(3)] by blast
  qed
  then have cfree: "\<forall>w \<in> set ?av. color ! nat w \<noteq> c"
    using c(2,5) used(3) by auto
  let ?color = "color[nat v := c]"
  have nth: "?color ! nat u = (if u = v then c else color ! nat u)" if "0 \<le> u" "u < ?n" for u
    using that vr clen by (auto simp: nth_list_update)
  have sat: "for_each ?av (saturation_body (adj g) ?color c) saturation = Inr saturation"
    using saturation_loop_unchanged [OF g vr, of ?color saturation c] clen len vr by simp
  have run: "color_step g v (color, saturation) = Inr (?color, saturation)"
    using vr shape clen used(1) c(1) sat by (simp add: color_step_def)
  have inv': "col_inv g ?color"
    unfolding col_inv_def
  proof (intro conjI ballI impI)
    show "length ?color = nat ?n" using clen by simp
  next
    fix u assume "u \<in> {0..<?n}"
    then show "- 1 \<le> ?color ! nat u" "?color ! nat u < ?n"
      using nth [of u] range c(2) cn by auto
  next
    fix u w
    assume u: "u \<in> {0..<?n}" and w: "w \<in> set (adj g ! nat u)"
      and colored: "?color ! nat u \<noteq> - 1 \<and> ?color ! nat w \<noteq> - 1"
    have wr: "0 \<le> w" "w < ?n" and wu: "w \<noteq> u" and uw: "u \<in> set (adj g ! nat w)"
      using valid_adj_nbr [OF g _ _ w] u by simp_all
    show "?color ! nat u \<noteq> ?color ! nat w"
    proof (cases "u = v")
      case True
      then have "w \<in> set ?av" "w \<noteq> v" using w wu by auto
      then show ?thesis using True nth [of u] nth [of w] u wr cfree by auto
    next
      case False
      show ?thesis
      proof (cases "w = v")
        case True
        then have "u \<in> set ?av" using uw by simp
        then show ?thesis using True False nth [of u] nth [of w] u wr cfree by auto
      next
        case wv: False
        then show ?thesis
          using False nth [of u] nth [of w] u wr w proper colored by auto
      qed
    qed
  qed
  have unc: "uncolored g ?color = uncolored g color - {v}"
    using nth c(2) cv by (auto simp: uncolored_def split: if_splits)
  show ?thesis
    using run c(2) cn inv' unc by blast
qed


lemma pickNextVertex_spec:
  assumes n: "0 \<le> cur_n g"
    and len: "length color = nat (cur_n g)" "length degree = nat (cur_n g)"
    and sat: "sat_inv g saturation"
  shows "\<exists>v. pickNextVertex (cur_n g) color saturation degree = Inr v \<and>
           ((v = - 1 \<and> uncolored g color = {}) \<or> v \<in> uncolored g color)"
proof -
  let ?I = "\<lambda>i (st :: int \<times> int \<times> int). case st of (bv, bs, bd) \<Rightarrow>
              (bv = - 1 \<and> bs = - 1 \<and> (\<forall>u \<in> {0..<i}. color ! nat u \<noteq> - 1)) \<or>
              (0 \<le> bv \<and> bv < i \<and> color ! nat bv = - 1)"
  have "\<exists>st. for_range 0 (cur_n g) (pick_body color saturation degree) (- 1, - 1, - 1) = Inr st \<and>
          ?I (cur_n g) st"
  proof (rule for_range_rule [where I = ?I])
    show "0 \<le> cur_n g" by fact
    show "?I 0 (- 1, - 1, - 1)" by simp
  next
    fix i st
    assume i: "0 \<le> i" "i < cur_n g" and inv: "?I i st"
    obtain bv bs bd where st: "st = (bv, bs, bd)" by (cases st) auto
    have reads: "vec_at color i = Inr (color ! nat i)"
      "vec_at saturation i = Inr (saturation ! nat i)"
      "vec_at degree i = Inr (degree ! nat i)"
      using i len sat by (simp_all add: sat_inv_def)
    have s0: "0 \<le> saturation ! nat i"
      using i sat by (simp add: sat_inv_def)
    have ext: "(\<forall>u \<in> {0..<i + 1}. P u) \<longleftrightarrow> (\<forall>u \<in> {0..<i}. P u) \<and> P i" for P
    proof -
      have "{0..<i + 1} = insert i {0..<i}" using i by auto
      then show ?thesis by auto
    qed
    show "\<exists>s'. pick_body color saturation degree i st = Inr s' \<and> ?I (i + 1) s'"
    proof (cases "color ! nat i = - 1")
      case False
      then have "pick_body color saturation degree i st = Inr st"
        using reads by (simp add: pick_body_def st)
      moreover have "?I (i + 1) st"
        using inv False unfolding st by (auto simp: ext)
      ultimately show ?thesis by simp
    next
      case True
      show ?thesis
      proof (cases "saturation ! nat i > bs \<or> (saturation ! nat i = bs \<and> degree ! nat i > bd)")
        case taken: True
        then have "pick_body color saturation degree i st
            = Inr (i, saturation ! nat i, degree ! nat i)"
          using reads True by (auto simp: pick_body_def st)
        moreover have "?I (i + 1) (i, saturation ! nat i, degree ! nat i)"
          using i True by simp
        ultimately show ?thesis by simp
      next
        case kept: False
        then have run: "pick_body color saturation degree i st = Inr st"
          using reads True by (auto simp: pick_body_def st)
        have "bs \<noteq> - 1" using kept s0 by auto
        then have "0 \<le> bv \<and> bv < i \<and> color ! nat bv = - 1"
          using inv unfolding st by auto
        then have "?I (i + 1) st" unfolding st by auto
        then show ?thesis using run by simp
      qed
    qed
  qed
  then obtain bv bs bd where
    run: "for_range 0 (cur_n g) (pick_body color saturation degree) (- 1, - 1, - 1)
          = Inr (bv, bs, bd)"
    and fin: "(bv = - 1 \<and> bs = - 1 \<and> (\<forall>u \<in> {0..<cur_n g}. color ! nat u \<noteq> - 1)) \<or>
              (0 \<le> bv \<and> bv < cur_n g \<and> color ! nat bv = - 1)"
    by (auto split: prod.splits)
  have "pickNextVertex (cur_n g) color saturation degree = Inr bv"
    using run by (simp add: pickNextVertex_def)
  moreover have "(bv = - 1 \<and> uncolored g color = {}) \<or> bv \<in> uncolored g color"
    using fin by (auto simp: uncolored_def)
  ultimately show ?thesis by blast
qed

lemma finite_uncolored [simp]: "finite (uncolored g color)"
  by (rule finite_subset [of _ "{0..<cur_n g}"]) (auto simp: uncolored_def)

lemma color_loop_spec:
  assumes g: "valid_adj g" and deg: "length degree = nat (cur_n g)"
    and sat: "sat_inv g saturation"
    and inv: "col_inv g color"
    and step: "0 \<le> step"
    and left: "card (uncolored g color) \<le> nat (cur_n g - step)"
  shows "\<exists>color'. color_loop step g degree (color, saturation) = Inr (color', saturation) \<and>
           col_inv g color' \<and> uncolored g color' = {}"
  using inv step left
proof (induction "nat (cur_n g - step)" arbitrary: step color)
  case 0
  have "finite (uncolored g color)" by simp
  then have "step \<ge> cur_n g" "uncolored g color = {}"
    using "0.hyps" "0.prems"(3) by auto
  then show ?case
    using "0.prems"(1) by (subst color_loop.simps) simp
next
  case (Suc k)
  then have lt: "step < cur_n g" by simp
  have n0: "0 \<le> cur_n g" using valid_adj_shape [OF g] by simp
  have clen: "length color = nat (cur_n g)"
    using Suc.prems(1) by (simp add: col_inv_def)
  obtain v where v: "pickNextVertex (cur_n g) color saturation degree = Inr v"
    "(v = - 1 \<and> uncolored g color = {}) \<or> v \<in> uncolored g color"
    using pickNextVertex_spec [OF n0 clen deg sat] by blast
  show ?case
  proof (cases "v = - 1")
    case True
    then have "uncolored g color = {}"
      using v(2) by (auto simp: uncolored_def)
    moreover have "color_loop step g degree (color, saturation) = Inr (color, saturation)"
      using lt v(1) True by (subst color_loop.simps) simp
    ultimately show ?thesis using Suc.prems(1) by simp
  next
    case False
    then have vu: "v \<in> uncolored g color" using v(2) by simp
    have slen: "length saturation = nat (cur_n g)"
      using sat by (simp add: sat_inv_def)
    obtain c where c: "color_step g v (color, saturation) = Inr (color[nat v := c], saturation)"
      "col_inv g (color[nat v := c])"
      "uncolored g (color[nat v := c]) = uncolored g color - {v}"
      using color_step_spec [OF g Suc.prems(1) slen vu] by blast
    have "finite (uncolored g color)" by simp
    then have "card (uncolored g (color[nat v := c])) = card (uncolored g color) - 1"
      using c(3) vu by simp
    then have less: "card (uncolored g (color[nat v := c])) \<le> nat (cur_n g - (step + 1))"
      using Suc.prems(3) lt by simp
    have "\<exists>color'. color_loop (step + 1) g degree (color[nat v := c], saturation)
            = Inr (color', saturation) \<and> col_inv g color' \<and> uncolored g color' = {}"
      using Suc.hyps(2) c(2) Suc.prems(2) less by (intro Suc.hyps(1)) auto
    moreover have "color_loop step g degree (color, saturation)
        = color_loop (step + 1) g degree (color[nat v := c], saturation)"
      using lt v(1) False c(1) by (subst color_loop.simps) simp
    ultimately show ?thesis by simp
  qed
qed

lemma set_conv_int_nth:
  assumes "length xs = nat n"
  shows "set xs = (\<lambda>u. xs ! nat u) ` {0..<n}"
proof -
  have "set xs = (\<lambda>k. xs ! k) ` {0..<length xs}"
    by (auto simp: set_conv_nth)
  also have "{0..<length xs} = nat ` {0..<n}"
  proof (intro set_eqI iffI)
    fix k assume "k \<in> {0..<length xs}"
    then have "int k \<in> {0..<n}" "k = nat (int k)" using assms by auto
    then show "k \<in> nat ` {0..<n}" by blast
  next
    fix k assume "k \<in> nat ` {0..<n}"
    then show "k \<in> {0..<length xs}" using assms by auto
  qed
  finally show ?thesis by (simp add: image_image)
qed

lemma max_loop:
  assumes n: "0 \<le> n" and len: "length color = nat n"
  shows "for_range 0 n (max_body color) 0 = Inr (Max (insert 0 ((\<lambda>c. c + 1) ` set color)))"
proof -
  let ?f = "\<lambda>u. color ! nat u + 1"
  have "\<exists>m. for_range 0 n (max_body color) 0 = Inr m \<and> m = Max (insert 0 (?f ` {0..<n}))"
  proof (rule for_range_rule [where I = "\<lambda>i m. m = Max (insert 0 (?f ` {0..<i}))"])
    fix i m
    assume i: "0 \<le> i" "i < n" and m: "m = Max (insert 0 (?f ` {0..<i}))"
    have "{0..<i + 1} = insert i {0..<i}" using i by auto
    then have "Max (insert 0 (?f ` {0..<i + 1})) = Max (insert (?f i) (insert 0 (?f ` {0..<i})))"
      by (simp add: insert_commute)
    also have "\<dots> = max (?f i) m"
      unfolding m by (rule Max_insert) auto
    finally have "max m (?f i) = Max (insert 0 (?f ` {0..<i + 1}))"
      by (simp add: max.commute)
    moreover have "max_body color i m = Inr (max m (?f i))"
      using i len by (simp add: max_body_def)
    ultimately show "\<exists>s'. max_body color i m = Inr s' \<and> s' = Max (insert 0 (?f ` {0..<i + 1}))"
      by simp
  qed (use n in auto)
  moreover have "?f ` {0..<n} = (\<lambda>c. c + 1) ` set color"
    unfolding set_conv_int_nth [OF len] by (simp add: image_image)
  ultimately show ?thesis by simp
qed


lemma heuristicColoring_spec:
  assumes g: "valid_adj g"
  shows "\<exists>k colors. heuristicColoring g = Inr (k, colors) \<and>
           length colors = nat (cur_n g) \<and>
           (\<forall>u \<in> {0..<cur_n g}. \<forall>w \<in> set (adj g ! nat u). colors ! nat u \<noteq> colors ! nat w) \<and>
           (\<forall>c \<in> set colors. 0 \<le> c \<and> c < k) \<and> k \<le> cur_n g \<and>
           k = Max (insert 0 ((\<lambda>c. c + 1) ` set colors))"
proof -
  let ?n = "cur_n g"
  have n0: "0 \<le> ?n" and shape: "int (length (adj g)) = ?n"
    using valid_adj_shape [OF g] by simp_all
  obtain ds where ds: "for_range 0 ?n (degrees_body g) (replicate (nat ?n) 0) = Inr ds"
    "length ds = nat ?n"
    using degrees_loop [OF n0 shape] by blast
  let ?c0 = "replicate (nat ?n) (- 1 :: int)" and ?s0 = "replicate (nat ?n) (0 :: int)"
  have inv0: "col_inv g ?c0"
    by (auto simp: col_inv_def)
  have sat0: "sat_inv g ?s0"
    by (simp add: sat_inv_def)
  have "uncolored g ?c0 \<subseteq> {0..<?n}"
    by (auto simp: uncolored_def)
  then have "card (uncolored g ?c0) \<le> card {0..<?n}"
    by (intro card_mono) auto
  then have left: "card (uncolored g ?c0) \<le> nat (?n - 0)"
    by simp
  obtain colors where run: "color_loop 0 g ds (?c0, ?s0) = Inr (colors, ?s0)"
    and inv: "col_inv g colors" and full: "uncolored g colors = {}"
    using color_loop_spec [OF g ds(2) sat0 inv0 order_refl left] by blast
  have len: "length colors = nat ?n"
    and range: "\<forall>u \<in> {0..<?n}. - 1 \<le> colors ! nat u \<and> colors ! nat u < ?n"
    and proper0: "\<forall>u \<in> {0..<?n}. \<forall>w \<in> set (adj g ! nat u).
         colors ! nat u \<noteq> - 1 \<and> colors ! nat w \<noteq> - 1 \<longrightarrow> colors ! nat u \<noteq> colors ! nat w"
    using inv by (simp_all add: col_inv_def)
  have colored: "colors ! nat u \<noteq> - 1" if "0 \<le> u" "u < ?n" for u
    using full that by (auto simp: uncolored_def)
  have proper: "\<forall>u \<in> {0..<?n}. \<forall>w \<in> set (adj g ! nat u). colors ! nat u \<noteq> colors ! nat w"
  proof (intro ballI)
    fix u w assume u: "u \<in> {0..<?n}" and w: "w \<in> set (adj g ! nat u)"
    have "0 \<le> w" "w < ?n" using valid_adj_nbr [OF g _ _ w] u by simp_all
    then show "colors ! nat u \<noteq> colors ! nat w"
      using proper0 u w colored by auto
  qed
  have bounds: "0 \<le> c \<and> c < ?n" if c: "c \<in> set colors" for c
  proof -
    have "c \<in> (\<lambda>u. colors ! nat u) ` {0..<?n}"
      using c set_conv_int_nth [OF len] by simp
    then obtain u where "u \<in> {0..<?n}" "c = colors ! nat u"
      by blast
    then show ?thesis using range colored [of u] by force
  qed
  let ?k = "Max (insert 0 ((\<lambda>c. c + 1) ` set colors))"
  have fin: "finite (insert 0 ((\<lambda>c. c + 1) ` set colors))" by simp
  have kmax: "for_range 0 ?n (max_body colors) 0 = Inr ?k"
    by (rule max_loop [OF n0 len])
  have res: "heuristicColoring g = Inr (?k, colors)"
    using n0 ds(1) run kmax by (simp add: heuristicColoring_def)
  have below: "\<forall>c \<in> set colors. 0 \<le> c \<and> c < ?k"
  proof
    fix c assume c: "c \<in> set colors"
    then have "c + 1 \<le> ?k" by (intro Max_ge) auto
    then show "0 \<le> c \<and> c < ?k" using bounds [OF c] by simp
  qed
  have "c + 1 \<le> ?n" if "c \<in> set colors" for c
    using bounds [OF that] by simp
  then have "?k \<le> ?n"
    using n0 by (subst Max_le_iff) auto
  then show ?thesis
    using res len proper below by blast
qed

text \<open>
  C3. On a graph with symmetric, self-loop-free adjacency sets over \<open>[0, n)\<close>,
  \<open>heuristicColoring\<close> returns \<open>(k, colors)\<close> with one colour per vertex, different
  colours at the two ends of every edge, every colour in \<open>[0, k)\<close>, \<open>k \<le> n\<close>, and
  \<open>k\<close> the maximum of \<open>colors[v] + 1\<close> over the vertices (\<open>0\<close> when there is none).
\<close>

theorem heuristicColoring_proper:
  assumes g: "valid_adj g"
  shows "\<exists>k colors. heuristicColoring g = Inr (k, colors) \<and>
           length colors = nat (cur_n g) \<and>
           (\<forall>u \<in> {0..<cur_n g}. \<forall>w \<in> set (adj g ! nat u). colors ! nat u \<noteq> colors ! nat w) \<and>
           (\<forall>c \<in> set colors. 0 \<le> c \<and> c < k) \<and> k \<le> cur_n g \<and>
           k = Max (insert 0 ((\<lambda>c. c + 1) ` set colors))"
  using g by (rule heuristicColoring_spec)

theorem heuristicColoring_proper_witness:
  "valid_adj \<lparr>cur_n = 5, orig_n = 5, adj = [[1, 4], [0, 2], [1, 3], [2, 4], [3, 0]],
      mapping = [[0], [1], [2], [3], [4]]\<rparr> \<and>
   heuristicColoring \<lparr>cur_n = 5, orig_n = 5, adj = [[1, 4], [0, 2], [1, 3], [2, 4], [3, 0]],
      mapping = [[0], [1], [2], [3], [4]]\<rparr> = Inr (3, [0, 1, 0, 1, 2])"
proof -
  let ?g = "\<lparr>cur_n = 5, orig_n = 5, adj = [[1, 4], [0, 2], [1, 3], [2, 4], [3, 0]],
      mapping = [[0], [1], [2], [3], [4]]\<rparr>"
  have v: "valid_adj ?g" by code_simp
  have e: "heuristicColoring ?g = Inr (3, [0, 1, 0, 1, 2])" by code_simp
  show ?thesis
    using heuristicColoring_proper [OF v] v e by simp
qed

lemma color_step_keeps_saturation:
  assumes "valid_adj g" "col_inv g color" "length saturation = nat (cur_n g)"
    "v \<in> uncolored g color"
  shows "\<exists>color'. color_step g v (color, saturation) = Inr (color', saturation)"
  using color_step_spec [OF assms] by blast

text \<open>
  C1. On the graph of one edge \<open>{0, 1}\<close> the first step picks vertex \<open>0\<close> and gives it
  colour \<open>0\<close>. Vertex \<open>1\<close> is then an uncoloured neighbour of \<open>0\<close> with no other coloured
  neighbour, and its saturation is still \<open>0\<close> after the step: the scan of \<open>adj[1]\<close> for
  colour \<open>0\<close> runs after \<^verbatim>\<open>color[v] = c\<close> and finds vertex \<open>0\<close> itself.
\<close>

theorem saturation_not_incremented:
  "pickNextVertex 2 [- 1, - 1] [0, 0] [1, 1] = Inr 0 \<and>
   color_step \<lparr>cur_n = 2, orig_n = 2, adj = [[1], [0]], mapping = [[0], [1]]\<rparr> 0
      ([- 1, - 1], [0, 0]) = Inr ([0, - 1], [0, 0])"
  by code_simp

section \<open>heuristicMaxClique\<close>

lemma nbr_loop:
  assumes "0 \<le> v" "v < int (length adjs)"
  shows "for_each xs (nbr_body adjs v) acc = Inr (acc @ filter (\<lambda>w. w \<in> set (adjs ! nat v)) xs)"
  using assms by (induction xs arbitrary: acc) (simp_all add: nbr_body_def uset_count_def)

lemma without_loop:
  assumes "0 \<le> u" "u < int (length adjs)"
  shows "for_each xs (without_body adjs u) acc
     = Inr (acc @ filter (\<lambda>w. w \<notin> set (adjs ! nat u)) xs)"
  using assms by (induction xs arbitrary: acc) (simp_all add: without_body_def uset_count_def)

lemma count_loop:
  assumes "0 \<le> u" "u < int (length adjs)"
  shows "\<exists>c. for_each xs (count_body adjs u) c0 = Inr c \<and> c0 \<le> c"
  using assms
proof (induction xs arbitrary: c0)
  case Nil
  then show ?case by simp
next
  case (Cons x xs)
  show ?case
  proof (cases "x \<in> set (adjs ! nat u)")
    case True
    then have "for_each (x # xs) (count_body adjs u) c0 = for_each xs (count_body adjs u) (c0 + 1)"
      using Cons.prems by (simp add: count_body_def uset_count_def)
    then show ?thesis using Cons.IH [OF Cons.prems, of "c0 + 1"] by auto
  next
    case False
    then have "for_each (x # xs) (count_body adjs u) c0 = for_each xs (count_body adjs u) c0"
      using Cons.prems by (simp add: count_body_def uset_count_def)
    then show ?thesis using Cons.IH [OF Cons.prems, of c0] by auto
  qed
qed

lemma pivot_loop:
  assumes "\<forall>u \<in> set xs. 0 \<le> u \<and> u < int (length adjs)"
  shows "\<exists>pivot m. for_each xs (pivot_body adjs P) (- 1, - 1) = Inr (pivot, m) \<and>
           (xs \<noteq> [] \<longrightarrow> pivot \<in> set xs)"
proof -
  let ?I = "\<lambda>pre (st :: int \<times> int). (pre = [] \<and> st = (- 1, - 1)) \<or> fst st \<in> set pre"
  have "\<exists>st. for_each xs (pivot_body adjs P) (- 1, - 1) = Inr st \<and> ?I xs st"
  proof (rule for_each_rule [where I = ?I])
    fix p u st
    assume inv: "?I p st" and u: "u \<in> set xs"
    obtain pv m where st: "st = (pv, m)" by (cases st) auto
    obtain c where c: "for_each P (count_body adjs u) 0 = Inr c" "0 \<le> c"
      using count_loop [of u adjs P 0] assms u by auto
    show "\<exists>s'. pivot_body adjs P u st = Inr s' \<and> ?I (p @ [u]) s'"
    proof (cases "c > m")
      case True
      then show ?thesis using c by (simp add: pivot_body_def st)
    next
      case False
      then have "m \<noteq> - 1" using c(2) by auto
      then have "pv \<in> set p" using inv by (auto simp: st)
      then show ?thesis using False c by (simp add: pivot_body_def st)
    qed
  qed simp
  then show ?thesis by (cases xs) auto
qed

lemma bk_inv_extend:
  assumes g: "valid_adj g" and inv: "bk_inv g R P" and v: "v \<in> set P"
  shows "bk_inv g (R @ [v]) (filter (\<lambda>w. w \<in> set (adj g ! nat v)) P)"
    and "length (filter (\<lambda>w. w \<in> set (adj g ! nat v)) P) < length P"
proof -
  have vr: "0 \<le> v" "v < cur_n g" and vR: "\<forall>r \<in> set R. v \<in> set (adj g ! nat r)"
    using inv v by (auto simp: bk_inv_def)
  have cl: "distinct R" "\<forall>u \<in> set R. 0 \<le> u \<and> u < cur_n g"
    "\<forall>u \<in> set R. \<forall>w \<in> set R. u \<noteq> w \<longrightarrow> w \<in> set (adj g ! nat u)"
    using inv by (auto simp: bk_inv_def is_clique_def uset_count_def)
  have noloop: "v \<notin> set (adj g ! nat v)"
    using valid_adj_nbr [OF g vr] by blast
  have fresh: "v \<notin> set R"
    using vR noloop by blast
  have mutual: "r \<in> set (adj g ! nat v)" if "r \<in> set R" for r
  proof -
    have "0 \<le> r" "r < cur_n g" "v \<in> set (adj g ! nat r)"
      using that cl(2) vR by auto
    then show ?thesis using valid_adj_nbr [OF g] by blast
  qed
  have "is_clique g (R @ [v])"
    unfolding is_clique_def uset_count_def
    using cl fresh vr vR mutual by auto
  moreover have "\<forall>p \<in> set (filter (\<lambda>w. w \<in> set (adj g ! nat v)) P).
      0 \<le> p \<and> p < cur_n g \<and> (\<forall>r \<in> set (R @ [v]). p \<in> set (adj g ! nat r))"
    using inv by (auto simp: bk_inv_def)
  moreover have "distinct (filter (\<lambda>w. w \<in> set (adj g ! nat v)) P)"
    using inv by (simp add: bk_inv_def)
  ultimately show "bk_inv g (R @ [v]) (filter (\<lambda>w. w \<in> set (adj g ! nat v)) P)"
    by (simp add: bk_inv_def)
  show "length (filter (\<lambda>w. w \<in> set (adj g ! nat v)) P) < length P"
    using v noloop by (intro length_filter_less)
qed

lemma bk_inv_remove: "bk_inv g R P \<Longrightarrow> bk_inv g R (removeAll v P)"
  by (auto simp: bk_inv_def distinct_removeAll)

lemma bk_branches_ok:
  assumes g: "valid_adj g"
    and IH: "\<And>R P X best. bk_inv g R P \<Longrightarrow> \<forall>x \<in> set X. 0 \<le> x \<and> x < cur_n g \<Longrightarrow>
               best_ok g best \<Longrightarrow> length P < fuel \<Longrightarrow>
               \<exists>best'. bronKerbosch fuel (adj g) R P X best = Inr best' \<and> best_ok g best'"
  shows "bk_inv g R P \<Longrightarrow> \<forall>x \<in> set X. 0 \<le> x \<and> x < cur_n g \<Longrightarrow> best_ok g best \<Longrightarrow>
         length P \<le> fuel \<Longrightarrow> distinct vs \<Longrightarrow> set vs \<subseteq> set P \<Longrightarrow>
         \<exists>best'. bk_branches fuel (adj g) vs R P X best = Inr best' \<and> best_ok g best'"
proof (induction vs arbitrary: P X best)
  case Nil
  then show ?case by simp
next
  case (Cons v vs)
  let ?newP = "filter (\<lambda>w. w \<in> set (adj g ! nat v)) P"
  let ?newX = "filter (\<lambda>w. w \<in> set (adj g ! nat v)) X"
  have shape: "int (length (adj g)) = cur_n g"
    using valid_adj_shape [OF g] by simp
  have vP: "v \<in> set P" using Cons.prems(6) by simp
  then have vr: "0 \<le> v" "v < int (length (adj g))"
    using Cons.prems(1) shape by (auto simp: bk_inv_def)
  have newP: "for_each P (nbr_body (adj g) v) [] = Inr ?newP"
    and newX: "for_each X (nbr_body (adj g) v) [] = Inr ?newX"
    using nbr_loop [OF vr, of _ "[]"] by simp_all
  have "\<exists>best'. bronKerbosch fuel (adj g) (R @ [v]) ?newP ?newX best = Inr best' \<and> best_ok g best'"
  proof (rule IH)
    show "bk_inv g (R @ [v]) ?newP"
      by (rule bk_inv_extend(1) [OF g Cons.prems(1) vP])
    show "\<forall>x \<in> set ?newX. 0 \<le> x \<and> x < cur_n g"
      using Cons.prems(2) by simp
    show "best_ok g best" by fact
    show "length ?newP < fuel"
      using bk_inv_extend(2) [OF g Cons.prems(1) vP] Cons.prems(4) by simp
  qed
  then obtain best1 where b1: "bronKerbosch fuel (adj g) (R @ [v]) ?newP ?newX best = Inr best1"
    "best_ok g best1"
    by blast
  show ?case
  proof (cases "removeAll v P = []")
    case True
    then show ?thesis using newP newX b1 by simp
  next
    case False
    have "\<exists>best'. bk_branches fuel (adj g) vs R (removeAll v P) (X @ [v]) best1 = Inr best' \<and>
            best_ok g best'"
    proof (rule Cons.IH)
      show "bk_inv g R (removeAll v P)"
        by (rule bk_inv_remove [OF Cons.prems(1)])
      show "\<forall>x \<in> set (X @ [v]). 0 \<le> x \<and> x < cur_n g"
        using Cons.prems(2) vr shape by simp
      show "best_ok g best1" by fact
      show "length (removeAll v P) \<le> fuel"
        using Cons.prems(4) length_removeAll_less_eq [of v P] by (rule order_trans [rotated])
      show "distinct vs" using Cons.prems(5) by simp
      show "set vs \<subseteq> set (removeAll v P)"
        using Cons.prems(5,6) by auto
    qed
    then show ?thesis using False newP newX b1 by simp
  qed
qed

lemma bronKerbosch_ok:
  assumes g: "valid_adj g"
  shows "bk_inv g R P \<Longrightarrow> \<forall>x \<in> set X. 0 \<le> x \<and> x < cur_n g \<Longrightarrow> best_ok g best \<Longrightarrow>
         length P < fuel \<Longrightarrow>
         \<exists>best'. bronKerbosch fuel (adj g) R P X best = Inr best' \<and> best_ok g best'"
proof (induction fuel arbitrary: R P X best)
  case 0
  then show ?case by simp
next
  case (Suc fuel)
  have shape: "int (length (adj g)) = cur_n g"
    using valid_adj_shape [OF g] by simp
  show ?case
  proof (cases "P = [] \<and> X = []")
    case True
    have "best_ok g (int (length R), R)"
      using Suc.prems(1) by (simp add: best_ok_def bk_inv_def)
    then show ?thesis using True Suc.prems(3) by (cases best) simp
  next
    case False
    have range: "\<forall>u \<in> set (P @ X). 0 \<le> u \<and> u < int (length (adj g))"
      using Suc.prems(1,2) shape by (auto simp: bk_inv_def)
    obtain pivot m where pv: "for_each (P @ X) (pivot_body (adj g) P) (- 1, - 1) = Inr (pivot, m)"
      "pivot \<in> set (P @ X)"
      using pivot_loop [OF range, of P] False by auto
    let ?vs = "filter (\<lambda>w. w \<notin> set (adj g ! nat pivot)) P"
    have wo: "for_each P (without_body (adj g) pivot) [] = Inr ?vs"
      using without_loop [of pivot "adj g" P "[]"] range pv(2) by simp
    have "\<exists>best'. bk_branches fuel (adj g) ?vs R P X best = Inr best' \<and> best_ok g best'"
    proof (rule bk_branches_ok [OF g])
      show "distinct ?vs" using Suc.prems(1) by (simp add: bk_inv_def)
      show "length P \<le> fuel" using Suc.prems(4) by simp
    qed (use Suc in auto)
    moreover have "bronKerbosch (Suc fuel) (adj g) R P X best
        = bk_branches fuel (adj g) ?vs R P X best"
      using pv(1) wo by (simp add: False)
    ultimately show ?thesis by simp
  qed
qed

text \<open>
  C4. On a graph with symmetric, self-loop-free adjacency sets over \<open>[0, n)\<close>, and with a
  recursion bound above \<open>n\<close>, \<open>heuristicMaxClique\<close> returns \<open>(size, C)\<close> where \<open>C\<close> lists
  distinct vertices of the graph that are pairwise adjacent and \<open>size\<close> is the length of
  \<open>C\<close>.
\<close>

theorem heuristicMaxClique_clique:
  assumes g: "valid_adj g" and fuel: "cur_n g < int fuel"
  shows "\<exists>C. heuristicMaxClique fuel g = Inr (int (length C), C) \<and> is_clique g C"
proof -
  let ?P = "[0..int (length (adj g)) - 1]"
  have shape: "int (length (adj g)) = cur_n g" and n0: "0 \<le> cur_n g"
    using valid_adj_shape [OF g] by simp_all
  have "bk_inv g [] ?P"
    using shape by (simp add: bk_inv_def is_clique_def)
  moreover have "best_ok g (0, [])"
    by (simp add: best_ok_def is_clique_def)
  moreover have "length ?P < fuel"
    using fuel shape n0 by simp
  ultimately have "\<exists>best. bronKerbosch fuel (adj g) [] ?P [] (0, []) = Inr best \<and> best_ok g best"
    by (intro bronKerbosch_ok [OF g]) simp_all
  then obtain best where "heuristicMaxClique fuel g = Inr best" "best_ok g best"
    unfolding heuristicMaxClique_def by blast
  then show ?thesis
    by (cases best) (auto simp: best_ok_def)
qed

theorem heuristicMaxClique_clique_witness:
  "valid_adj \<lparr>cur_n = 4, orig_n = 4, adj = [[1, 2], [0, 2], [1, 0, 3], [2]],
      mapping = [[0], [1], [2], [3]]\<rparr> \<and>
   heuristicMaxClique 5 \<lparr>cur_n = 4, orig_n = 4, adj = [[1, 2], [0, 2], [1, 0, 3], [2]],
      mapping = [[0], [1], [2], [3]]\<rparr> = Inr (3, [2, 0, 1]) \<and>
   is_clique \<lparr>cur_n = 4, orig_n = 4, adj = [[1, 2], [0, 2], [1, 0, 3], [2]],
      mapping = [[0], [1], [2], [3]]\<rparr> [2, 0, 1]"
proof -
  let ?g = "\<lparr>cur_n = 4, orig_n = 4, adj = [[1, 2], [0, 2], [1, 0, 3], [2]],
      mapping = [[0], [1], [2], [3]]\<rparr>"
  have v: "valid_adj ?g" by code_simp
  have e: "heuristicMaxClique 5 ?g = Inr (3, [2, 0, 1])" by code_simp
  have f: "cur_n ?g < int 5" by simp
  show ?thesis
    using heuristicMaxClique_clique [OF v f] v e by auto
qed

section \<open>mergeVertices: what the loops compute\<close>

lemma indices_loop:
  assumes j: "0 \<le> j" "j < n"
  shows "\<exists>ni. for_range 0 n (indices_body j) [] = Inr ni \<and> int (length ni) = n - 1 \<and>
           (\<forall>a. 0 \<le> a \<and> a < n - 1 \<longrightarrow> ni ! nat a = old_index j a)"
proof -
  let ?I = "\<lambda>k acc. int (length acc) = (if k \<le> j then k else k - 1) \<and>
              (\<forall>a. 0 \<le> a \<and> a < int (length acc) \<longrightarrow> acc ! nat a = old_index j a)"
  have "\<exists>ni. for_range 0 n (indices_body j) [] = Inr ni \<and> ?I n ni"
  proof (rule for_range_rule [where I = ?I])
    show "0 \<le> n" using j by simp
    show "?I 0 []" using j by simp
  next
    fix k acc
    assume k: "0 \<le> k" "k < n" and inv: "?I k acc"
    show "\<exists>s'. indices_body j k acc = Inr s' \<and> ?I (k + 1) s'"
    proof (cases "k = j")
      case True
      then show ?thesis using inv by (simp add: indices_body_def)
    next
      case False
      have run: "indices_body j k acc = Inr (acc @ [k])"
        using False by (simp add: indices_body_def)
      have len: "int (length (acc @ [k])) = (if k + 1 \<le> j then k + 1 else k + 1 - 1)"
        using inv False by auto
      have "(acc @ [k]) ! nat a = old_index j a" if a: "0 \<le> a" "a < int (length (acc @ [k]))" for a
      proof (cases "a < int (length acc)")
        case True
        then have "nat a < length acc" using a by simp
        then show ?thesis using inv a True by (simp add: nth_append)
      next
        case last: False
        then have al: "a = int (length acc)" using a by simp
        then have "nat a = length acc" by simp
        then have "(acc @ [k]) ! nat a = k" by simp
        moreover have "old_index j a = k"
          using al inv False by (auto simp: old_index_def)
        ultimately show ?thesis by simp
      qed
      then show ?thesis using run len by simp
    qed
  qed
  then show ?thesis using j by auto
qed

lemma old_index_range:
  assumes "0 \<le> j" "j < n" "0 \<le> a" "a < n - 1"
  shows "0 \<le> old_index j a" "old_index j a < n" "old_index j a \<noteq> j"
  using assms by (auto simp: old_index_def)

lemma old_index_inj: "old_index j a = old_index j b \<Longrightarrow> a = b"
  by (auto simp: old_index_def split: if_splits)

lemma mapping_loop:
  assumes n: "int (length (mapping g)) = cur_n g" and i: "0 \<le> i" "i < cur_n g"
    and j: "0 \<le> j" "j < cur_n g"
    and ni: "int (length ni) = cur_n g - 1"
      "\<forall>a. 0 \<le> a \<and> a < cur_n g - 1 \<longrightarrow> ni ! nat a = old_index j a"
    and m0: "int (length m0) = cur_n g - 1"
  shows "\<exists>mp. for_range 0 (cur_n g - 1) (merge_mapping_body g i j ni) m0 = Inr mp \<and>
           int (length mp) = cur_n g - 1 \<and>
           (\<forall>a. 0 \<le> a \<and> a < cur_n g - 1 \<longrightarrow>
              mp ! nat a = (if old_index j a = i then mapping g ! nat i @ mapping g ! nat j
                            else mapping g ! nat (old_index j a)))"
proof -
  let ?M = "\<lambda>a. if old_index j a = i then mapping g ! nat i @ mapping g ! nat j
                else mapping g ! nat (old_index j a)"
  let ?I = "\<lambda>k mp. int (length mp) = cur_n g - 1 \<and> (\<forall>a. 0 \<le> a \<and> a < k \<longrightarrow> mp ! nat a = ?M a)"
  have "\<exists>mp. for_range 0 (cur_n g - 1) (merge_mapping_body g i j ni) m0 = Inr mp \<and>
          ?I (cur_n g - 1) mp"
  proof (rule for_range_rule [where I = ?I])
    show "0 \<le> cur_n g - 1" using i by simp
    show "?I 0 m0" using m0 by auto
  next
    fix k mp
    assume k: "0 \<le> k" "k < cur_n g - 1" and inv: "?I k mp"
    have old: "0 \<le> old_index j k" "old_index j k < cur_n g"
      using old_index_range [OF j k] by simp_all
    have rd: "vec_at ni k = Inr (old_index j k)"
      using ni k by simp
    have run: "merge_mapping_body g i j ni k mp = Inr (mp[nat k := ?M k])"
      using rd i j old n k inv by (simp add: merge_mapping_body_def)
    have lk: "nat k < length mp" using k inv by auto
    have "mp[nat k := ?M k] ! nat a = ?M a" if a: "0 \<le> a" "a < k + 1" for a
    proof (cases "a = k")
      case True
      then show ?thesis using lk by simp
    next
      case False
      then have "nat a \<noteq> nat k" "a < k" using a k by auto
      then show ?thesis using inv a by simp
    qed
    then show "\<exists>s'. merge_mapping_body g i j ni k mp = Inr s' \<and> ?I (k + 1) s'"
      using run inv by simp
  qed
  then show ?thesis by blast
qed

lemma connected_test_spec:
  assumes "int (length (adj g)) = cur_n g" "0 \<le> i" "i < cur_n g" "0 \<le> j" "j < cur_n g"
    "0 \<le> x" "x < cur_n g"
  shows "connected_test g i j x y = Inr (merged_edge g i j x y)"
  using assms by (simp add: connected_test_def merged_edge_def uset_count_def)

lemma edges_of_insert:
  assumes "0 \<le> a" "a < int (length ad)"
  shows "edges_of (ad[nat a := uset_insert b (ad ! nat a)]) = insert (a, b) (edges_of ad)"
proof -
  have "nat a = nat x \<longleftrightarrow> x = a" if "0 \<le> x" for x
    using that assms by auto
  then show ?thesis
    using assms by (auto simp: edges_of_def nth_list_update split: if_splits)
qed

lemma distinct_rows_update:
  assumes "\<forall>x \<in> set ad. distinct x" "k < length ad"
  shows "\<forall>x \<in> set (ad[k := uset_insert b (ad ! k)]). distinct x"
proof
  fix x assume "x \<in> set (ad[k := uset_insert b (ad ! k)])"
  then have "x = uset_insert b (ad ! k) \<or> x \<in> set ad"
    using set_update_subset_insert [of ad k "uset_insert b (ad ! k)"] by auto
  then show "distinct x" using assms by auto
qed


lemma sym_edges_insert:
  "sym_edges g i j (insert (a, b) S) =
     (if merged_edge g i j (old_index j a) (old_index j b)
      then insert (a, b) (insert (b, a) (sym_edges g i j S)) else sym_edges g i j S)"
  by (auto simp: sym_edges_def)

lemma merge_scanned_step:
  assumes "0 \<le> a" "a < b" "b < m"
  shows "merge_scanned m a (b + 1) = insert (a, b) (merge_scanned m a b)"
proof -
  have "y < b + 1 \<longleftrightarrow> y < b \<or> y = b" for y
    by auto
  then show ?thesis
    using assms by (auto simp: merge_scanned_def)
qed

lemma merge_scanned_row_end: "merge_scanned m (a + 1) (a + 2) = merge_scanned m a m"
  by (auto simp: merge_scanned_def)

lemma merge_scanned_empty: "merge_scanned m 0 1 = {}"
  by (auto simp: merge_scanned_def)

lemma merge_scanned_all: "merge_scanned m m (m + 1) = {(x, y). 0 \<le> x \<and> x < y \<and> y < m}"
  by (auto simp: merge_scanned_def)

lemma merge_adj_step:
  assumes shape: "int (length (adj g)) = cur_n g"
    and i: "0 \<le> i" "i < cur_n g" and j: "0 \<le> j" "j < cur_n g"
    and ni: "int (length ni) = cur_n g - 1"
      "\<forall>a. 0 \<le> a \<and> a < cur_n g - 1 \<longrightarrow> ni ! nat a = old_index j a"
    and ab: "0 \<le> a" "a < b" "b < cur_n g - 1"
    and inv: "merge_inv g i j (merge_scanned (cur_n g - 1) a b) ad"
  shows "\<exists>ad'. merge_adj_body g i j ni a b ad = Inr ad' \<and>
           merge_inv g i j (merge_scanned (cur_n g - 1) a (b + 1)) ad'"
proof -
  let ?S = "merge_scanned (cur_n g - 1) a b"
  have len: "int (length ad) = cur_n g - 1" and dist: "\<forall>x \<in> set ad. distinct x"
    and edges: "edges_of ad = sym_edges g i j ?S"
    using inv by (simp_all add: merge_inv_def)
  have ra: "vec_at ni a = Inr (old_index j a)" and rb: "vec_at ni b = Inr (old_index j b)"
    using ni ab by simp_all
  have olda: "0 \<le> old_index j a" "old_index j a < cur_n g"
    using old_index_range [OF j, of a] ab by simp_all
  have test: "connected_test g i j (old_index j a) (old_index j b)
      = Inr (merged_edge g i j (old_index j a) (old_index j b))"
    by (rule connected_test_spec [OF shape i j olda])
  have step: "merge_scanned (cur_n g - 1) a (b + 1) = insert (a, b) ?S"
    by (rule merge_scanned_step [OF ab])
  show ?thesis
  proof (cases "merged_edge g i j (old_index j a) (old_index j b)")
    case False
    then have "merge_adj_body g i j ni a b ad = Inr ad"
      using ra rb test by (simp add: merge_adj_body_def)
    moreover have "merge_inv g i j (insert (a, b) ?S) ad"
      using inv False by (simp add: merge_inv_def sym_edges_insert)
    ultimately show ?thesis using step by simp
  next
    case True
    let ?ad1 = "ad[nat a := uset_insert b (ad ! nat a)]"
    let ?ad2 = "?ad1[nat b := uset_insert a (?ad1 ! nat b)]"
    have la: "0 \<le> a" "a < int (length ad)" and lb: "0 \<le> b" "b < int (length ?ad1)"
      using ab len by simp_all
    have run: "merge_adj_body g i j ni a b ad = Inr ?ad2"
      using ra rb test True la lb by (simp add: merge_adj_body_def)
    have "edges_of ?ad2 = insert (b, a) (edges_of ?ad1)"
      by (rule edges_of_insert [OF lb])
    also have "edges_of ?ad1 = insert (a, b) (edges_of ad)"
      by (rule edges_of_insert [OF la])
    finally have e2: "edges_of ?ad2 = sym_edges g i j (insert (a, b) ?S)"
      using True edges by (simp add: sym_edges_insert insert_commute)
    have d1: "\<forall>x \<in> set ?ad1. distinct x"
      using distinct_rows_update [OF dist, of "nat a" b] la by simp
    have d2: "\<forall>x \<in> set ?ad2. distinct x"
      using distinct_rows_update [OF d1, of "nat b" a] lb by simp
    have "merge_inv g i j (insert (a, b) ?S) ?ad2"
      using e2 d2 len by (simp add: merge_inv_def)
    then show ?thesis using run step by simp
  qed
qed

lemma merge_adj_row:
  assumes shape: "int (length (adj g)) = cur_n g"
    and i: "0 \<le> i" "i < cur_n g" and j: "0 \<le> j" "j < cur_n g"
    and ni: "int (length ni) = cur_n g - 1"
      "\<forall>a. 0 \<le> a \<and> a < cur_n g - 1 \<longrightarrow> ni ! nat a = old_index j a"
    and a: "0 \<le> a" "a < cur_n g - 1"
    and inv: "merge_inv g i j (merge_scanned (cur_n g - 1) a (a + 1)) ad"
  shows "\<exists>ad'. for_range (a + 1) (cur_n g - 1) (merge_adj_body g i j ni a) ad = Inr ad' \<and>
           merge_inv g i j (merge_scanned (cur_n g - 1) (a + 1) (a + 1 + 1)) ad'"
proof -
  have "\<exists>ad'. for_range (a + 1) (cur_n g - 1) (merge_adj_body g i j ni a) ad = Inr ad' \<and>
          merge_inv g i j (merge_scanned (cur_n g - 1) a (cur_n g - 1)) ad'"
  proof (rule for_range_rule [where I = "\<lambda>b. merge_inv g i j (merge_scanned (cur_n g - 1) a b)"])
    show "a + 1 \<le> cur_n g - 1" using a by simp
    show "merge_inv g i j (merge_scanned (cur_n g - 1) a (a + 1)) ad" by fact
  next
    fix b s
    assume "a + 1 \<le> b" "b < cur_n g - 1" "merge_inv g i j (merge_scanned (cur_n g - 1) a b) s"
    then show "\<exists>s'. merge_adj_body g i j ni a b s = Inr s' \<and>
                 merge_inv g i j (merge_scanned (cur_n g - 1) a (b + 1)) s'"
      using merge_adj_step [OF shape i j ni, of a b s] a by simp
  qed
  then show ?thesis
    using merge_scanned_row_end [of "cur_n g - 1" a] by (simp add: add.commute)
qed

lemma edges_of_replicate: "edges_of (replicate k []) = {}"
  by (auto simp: edges_of_def)

lemma mergeVertices_spec:
  assumes shape: "int (length (adj g)) = cur_n g" "int (length (mapping g)) = cur_n g"
    and i: "0 \<le> i" "i < cur_n g" and j: "0 \<le> j" "j < cur_n g"
  shows "\<exists>g'. mergeVertices g i j = Inr g' \<and> cur_n g' = cur_n g - 1 \<and> orig_n g' = orig_n g \<and>
           int (length (mapping g')) = cur_n g - 1 \<and>
           (\<forall>a. 0 \<le> a \<and> a < cur_n g - 1 \<longrightarrow>
              mapping g' ! nat a =
                (if old_index j a = i then mapping g ! nat i @ mapping g ! nat j
                 else mapping g ! nat (old_index j a))) \<and>
           int (length (adj g')) = cur_n g - 1 \<and> (\<forall>x \<in> set (adj g'). distinct x) \<and>
           edges_of (adj g') = sym_edges g i j {(x, y). 0 \<le> x \<and> x < y \<and> y < cur_n g - 1}"
proof -
  let ?m = "cur_n g - 1"
  let ?newG = "\<lparr>cur_n = ?m, orig_n = ?m, adj = replicate (nat ?m) [],
                mapping = map (\<lambda>i. [i]) [0..?m - 1]\<rparr>"
  have m0: "0 \<le> ?m" using i by simp
  have newG: "Graph ?m = Inr ?newG"
    using m0 by (simp add: Graph_def)
  obtain ni where ni: "for_range 0 (cur_n g) (indices_body j) [] = Inr ni"
    "int (length ni) = ?m" "\<forall>a. 0 \<le> a \<and> a < ?m \<longrightarrow> ni ! nat a = old_index j a"
    using indices_loop [OF j] by blast
  have len0: "int (length (map (\<lambda>i. [i]) [0..?m - 1])) = ?m"
    using m0 by simp
  obtain mp where mp: "for_range 0 ?m (merge_mapping_body g i j ni) (map (\<lambda>i. [i]) [0..?m - 1])
      = Inr mp" "int (length mp) = ?m"
    "\<forall>a. 0 \<le> a \<and> a < ?m \<longrightarrow>
        mp ! nat a = (if old_index j a = i then mapping g ! nat i @ mapping g ! nat j
                      else mapping g ! nat (old_index j a))"
    using mapping_loop [OF shape(2) i j ni(2,3) len0] by blast
  have "\<exists>ad. for_range 0 ?m (\<lambda>a. for_range (a + 1) ?m (merge_adj_body g i j ni a))
            (replicate (nat ?m) []) = Inr ad \<and>
          merge_inv g i j (merge_scanned ?m ?m (?m + 1)) ad"
  proof (rule for_range_rule [where I = "\<lambda>a. merge_inv g i j (merge_scanned ?m a (a + 1))"])
    show "0 \<le> ?m" by fact
    show "merge_inv g i j (merge_scanned ?m 0 (0 + 1)) (replicate (nat ?m) [])"
      using m0 by (simp add: merge_inv_def merge_scanned_empty edges_of_replicate sym_edges_def)
  next
    fix a s
    assume "0 \<le> a" "a < ?m" "merge_inv g i j (merge_scanned ?m a (a + 1)) s"
    then show "\<exists>s'. for_range (a + 1) ?m (merge_adj_body g i j ni a) s = Inr s' \<and>
                 merge_inv g i j (merge_scanned ?m (a + 1) (a + 1 + 1)) s'"
      using merge_adj_row [OF shape(1) i j ni(2,3)] by blast
  qed
  then obtain ad where ad: "for_range 0 ?m (\<lambda>a. for_range (a + 1) ?m (merge_adj_body g i j ni a))
            (replicate (nat ?m) []) = Inr ad"
    and inv: "merge_inv g i j {(x, y). 0 \<le> x \<and> x < y \<and> y < ?m} ad"
    unfolding merge_scanned_all by blast
  have "mergeVertices g i j = Inr (?newG\<lparr>orig_n := orig_n g, adj := ad, mapping := mp\<rparr>)"
    using newG ni(1) mp(1) ad by (simp add: mergeVertices_def)
  then show ?thesis
    using mp(2,3) inv by (simp add: merge_inv_def)
qed

section \<open>The branching operators keep the invariants\<close>

lemma rows_distinct_iff:
  assumes "int (length ad) = n"
  shows "(\<forall>x \<in> set ad. distinct x) \<longleftrightarrow> (\<forall>i \<in> {0..<n}. distinct (ad ! nat i))"
proof -
  have "length ad = nat n" using assms by simp
  then have "set ad = (\<lambda>u. ad ! nat u) ` {0..<n}"
    by (rule set_conv_int_nth)
  then show ?thesis by simp
qed

lemma edges_of_mem:
  "(x, y) \<in> edges_of ad \<longleftrightarrow> 0 \<le> x \<and> x < int (length ad) \<and> y \<in> set (ad ! nat x)"
  by (simp add: edges_of_def)

lemma valid_adj_edges:
  "valid_adj g \<longleftrightarrow>
     0 \<le> cur_n g \<and> int (length (adj g)) = cur_n g \<and> (\<forall>x \<in> set (adj g). distinct x) \<and>
     (\<forall>(x, y) \<in> edges_of (adj g). 0 \<le> y \<and> y < cur_n g \<and> y \<noteq> x \<and> (y, x) \<in> edges_of (adj g))"
proof (cases "0 \<le> cur_n g \<and> int (length (adj g)) = cur_n g")
  case False
  then show ?thesis by (auto simp: valid_adj_def)
next
  case True
  then have len: "int (length (adj g)) = cur_n g" by simp
  let ?L = "\<forall>i \<in> {0..<cur_n g}. \<forall>w \<in> set (adj g ! nat i).
            0 \<le> w \<and> w < cur_n g \<and> w \<noteq> i \<and> i \<in> set (adj g ! nat w)"
  let ?R = "\<forall>(x, y) \<in> edges_of (adj g).
            0 \<le> y \<and> y < cur_n g \<and> y \<noteq> x \<and> (y, x) \<in> edges_of (adj g)"
  have "?L \<longleftrightarrow> ?R"
  proof
    assume L: ?L
    show ?R
    proof (clarify)
      fix x y assume "(x, y) \<in> edges_of (adj g)"
      then have x: "x \<in> {0..<cur_n g}" and y: "y \<in> set (adj g ! nat x)"
        using len by (simp_all add: edges_of_mem)
      have "0 \<le> y \<and> y < cur_n g \<and> y \<noteq> x \<and> x \<in> set (adj g ! nat y)"
        using L x y by blast
      then show "0 \<le> y \<and> y < cur_n g \<and> y \<noteq> x \<and> (y, x) \<in> edges_of (adj g)"
        using len by (simp add: edges_of_mem)
    qed
  next
    assume R: ?R
    show ?L
    proof (intro ballI)
      fix i w assume "i \<in> {0..<cur_n g}" "w \<in> set (adj g ! nat i)"
      then have "(i, w) \<in> edges_of (adj g)"
        using len by (simp add: edges_of_mem)
      then have "0 \<le> w \<and> w < cur_n g \<and> w \<noteq> i \<and> (w, i) \<in> edges_of (adj g)"
        using R by blast
      then show "0 \<le> w \<and> w < cur_n g \<and> w \<noteq> i \<and> i \<in> set (adj g ! nat w)"
        by (simp add: edges_of_mem)
    qed
  qed
  then show ?thesis
    using True rows_distinct_iff [OF len] unfolding valid_adj_def by blast
qed

lemma addEdge_valid_adj:
  assumes g: "valid_adj g" and i: "0 \<le> i" "i < cur_n g" and j: "0 \<le> j" "j < cur_n g"
    and ij: "i \<noteq> j"
  shows "\<exists>g'. addEdge g i j = Inr g' \<and> cur_n g' = cur_n g \<and> orig_n g' = orig_n g \<and>
           mapping g' = mapping g \<and> valid_adj g' \<and>
           edges_of (adj g') = insert (j, i) (insert (i, j) (edges_of (adj g)))"
proof -
  let ?a1 = "(adj g)[nat i := uset_insert j (adj g ! nat i)]"
  let ?a2 = "?a1[nat j := uset_insert i (?a1 ! nat j)]"
  let ?g = "g\<lparr>adj := ?a2\<rparr>"
  have shape: "int (length (adj g)) = cur_n g" and n0: "0 \<le> cur_n g"
    using valid_adj_shape [OF g] by simp_all
  have old: "\<forall>x \<in> set (adj g). distinct x"
    "\<forall>(x, y) \<in> edges_of (adj g). 0 \<le> y \<and> y < cur_n g \<and> y \<noteq> x \<and> (y, x) \<in> edges_of (adj g)"
    using g unfolding valid_adj_edges by simp_all
  have run: "addEdge g i j = Inr ?g"
    using addEdge_in_range [OF shape i j] .
  have li: "0 \<le> i" "i < int (length (adj g))" and lj: "0 \<le> j" "j < int (length ?a1)"
    using i j shape by simp_all
  have "edges_of ?a2 = insert (j, i) (edges_of ?a1)"
    by (rule edges_of_insert [OF lj])
  also have "edges_of ?a1 = insert (i, j) (edges_of (adj g))"
    by (rule edges_of_insert [OF li])
  finally have e2: "edges_of ?a2 = insert (j, i) (insert (i, j) (edges_of (adj g)))" .
  have d1: "\<forall>x \<in> set ?a1. distinct x"
    using distinct_rows_update [OF old(1), of "nat i" j] li by simp
  have d2: "\<forall>x \<in> set ?a2. distinct x"
    using distinct_rows_update [OF d1, of "nat j" i] lj by simp
  have "\<forall>(x, y) \<in> edges_of ?a2. 0 \<le> y \<and> y < cur_n g \<and> y \<noteq> x \<and> (y, x) \<in> edges_of ?a2"
    unfolding e2 using old(2) i j ij by auto
  then have "valid_adj ?g"
    unfolding valid_adj_edges using d2 shape n0 by simp
  then show ?thesis using run e2 by simp
qed

lemma sym_edges_sym: "(x, y) \<in> sym_edges g i j S \<Longrightarrow> (y, x) \<in> sym_edges g i j S"
  by (auto simp: sym_edges_def)

lemma sym_edges_range:
  assumes "(x, y) \<in> sym_edges g i j {(x, y). 0 \<le> x \<and> x < y \<and> y < m}"
  shows "0 \<le> x \<and> x < m \<and> 0 \<le> y \<and> y < m \<and> x \<noteq> y"
  using assms by (auto simp: sym_edges_def)

lemma mergeVertices_valid_adj:
  assumes shape: "int (length (adj g)) = cur_n g" "int (length (mapping g)) = cur_n g"
    and i: "0 \<le> i" "i < cur_n g" and j: "0 \<le> j" "j < cur_n g"
    and run: "mergeVertices g i j = Inr g'"
  shows "valid_adj g'"
proof -
  let ?S = "{(x, y). 0 \<le> x \<and> x < y \<and> y < cur_n g - 1}"
  have g': "cur_n g' = cur_n g - 1" "int (length (adj g')) = cur_n g - 1"
    "\<forall>x \<in> set (adj g'). distinct x" "edges_of (adj g') = sym_edges g i j ?S"
    using mergeVertices_spec [OF shape i j] run by auto
  have "\<forall>(x, y) \<in> edges_of (adj g').
          0 \<le> y \<and> y < cur_n g' \<and> y \<noteq> x \<and> (y, x) \<in> edges_of (adj g')"
    unfolding g'(1,4) using sym_edges_sym [of _ _ g i j ?S] sym_edges_range [of _ _ g i j "cur_n g - 1"]
    by blast
  then show ?thesis
    unfolding valid_adj_edges using g'(1,2,3) i by simp
qed

lemma concat_update:
  assumes "k < length xs"
  shows "mset (concat (xs[k := xs ! k @ ys])) = mset (concat xs) + mset ys"
proof -
  have "xs[k := xs ! k @ ys] = take k xs @ (xs ! k @ ys) # drop (Suc k) xs"
    using assms by (rule upd_conv_take_nth_drop)
  moreover have "xs = take k xs @ xs ! k # drop (Suc k) xs"
    using assms by (rule id_take_nth_drop)
  ultimately have "mset (concat (xs[k := xs ! k @ ys]))
      = mset (concat (take k xs)) + mset (xs ! k) + mset ys + mset (concat (drop (Suc k) xs))"
    and "mset (concat xs)
      = mset (concat (take k xs)) + mset (xs ! k) + mset (concat (drop (Suc k) xs))"
    by (metis concat.simps(2) concat_append mset_append union_assoc)+
  then show ?thesis by simp
qed

lemma concat_remove:
  assumes "k < length xs"
  shows "mset (concat (take k xs @ drop (Suc k) xs)) + mset (xs ! k) = mset (concat xs)"
proof -
  have "xs = take k xs @ xs ! k # drop (Suc k) xs"
    using assms by (rule id_take_nth_drop)
  then have "mset (concat xs)
      = mset (concat (take k xs)) + mset (xs ! k) + mset (concat (drop (Suc k) xs))"
    by (metis concat.simps(2) concat_append mset_append union_assoc)
  then show ?thesis by simp
qed


lemma merged_mapping_list:
  assumes len: "int (length (mapping g)) = cur_n g"
    and i: "0 \<le> i" "i < cur_n g" and j: "0 \<le> j" "j < cur_n g" and ij: "i \<noteq> j"
    and len': "int (length mp) = cur_n g - 1"
    and nth: "\<forall>a. 0 \<le> a \<and> a < cur_n g - 1 \<longrightarrow>
           mp ! nat a = (if old_index j a = i then mapping g ! nat i @ mapping g ! nat j
                         else mapping g ! nat (old_index j a))"
  shows "mp = take (nat j) ((mapping g)[nat i := mapping g ! nat i @ mapping g ! nat j]) @
              drop (Suc (nat j)) ((mapping g)[nat i := mapping g ! nat i @ mapping g ! nat j])"
proof (rule nth_equalityI)
  let ?M = "(mapping g)[nat i := mapping g ! nat i @ mapping g ! nat j]"
  have lM: "length ?M = nat (cur_n g)" using len by simp
  show "length mp = length (take (nat j) ?M @ drop (Suc (nat j)) ?M)"
    using len' lM j by simp
  fix k assume "k < length mp"
  then have k: "0 \<le> int k" "int k < cur_n g - 1" using len' by simp_all
  have mpk: "mp ! k = (if old_index j (int k) = i then mapping g ! nat i @ mapping g ! nat j
                        else mapping g ! nat (old_index j (int k)))"
    using nth k by (metis nat_int)
  have Mn: "?M ! q = (if q = nat i then mapping g ! nat i @ mapping g ! nat j else mapping g ! q)"
    if "q < nat (cur_n g)" for q
    using that len by (simp add: nth_list_update)
  have lt: "length (take (nat j) ?M) = nat j"
    using lM j by simp
  show "mp ! k = (take (nat j) ?M @ drop (Suc (nat j)) ?M) ! k"
  proof (cases "int k < j")
    case True
    then have kj: "k < nat j" by simp
    then have "(take (nat j) ?M @ drop (Suc (nat j)) ?M) ! k = ?M ! k"
      unfolding nth_append lt by simp
    moreover have "old_index j (int k) = int k"
      using True by (simp add: old_index_def)
    moreover have "int k = i \<longleftrightarrow> k = nat i" using i by auto
    moreover have "k < nat (cur_n g)" using k by simp
    ultimately show ?thesis using mpk Mn [of k] by simp
  next
    case False
    then have kj: "\<not> k < nat j" using j by simp
    have "Suc (nat j) + (k - nat j) = Suc k" using kj by simp
    moreover have "Suc (nat j) + (k - nat j) \<le> length ?M"
      using kj k lM by simp
    ultimately have "(take (nat j) ?M @ drop (Suc (nat j)) ?M) ! k = ?M ! (Suc k)"
      unfolding nth_append lt using kj by (simp add: nth_drop)
    moreover have "old_index j (int k) = int k + 1"
      using False by (simp add: old_index_def)
    moreover have "int k + 1 = i \<longleftrightarrow> Suc k = nat i" using i by auto
    moreover have "nat (int k + 1) = Suc k" by simp
    moreover have "Suc k < nat (cur_n g)" using k by simp
    ultimately show ?thesis using mpk Mn [of "Suc k"] by simp
  qed
qed

lemma merged_mapping_mset:
  assumes len: "int (length (mapping g)) = cur_n g"
    and i: "0 \<le> i" "i < cur_n g" and j: "0 \<le> j" "j < cur_n g" and ij: "i \<noteq> j"
    and len': "int (length mp) = cur_n g - 1"
    and nth: "\<forall>a. 0 \<le> a \<and> a < cur_n g - 1 \<longrightarrow>
           mp ! nat a = (if old_index j a = i then mapping g ! nat i @ mapping g ! nat j
                         else mapping g ! nat (old_index j a))"
  shows "mset (concat mp) = mset (concat (mapping g))"
proof -
  let ?M = "(mapping g)[nat i := mapping g ! nat i @ mapping g ! nat j]"
  have li: "nat i < length (mapping g)" and lj: "nat j < length ?M" and ne: "nat i \<noteq> nat j"
    using len i j ij by auto
  have mp: "mp = take (nat j) ?M @ drop (Suc (nat j)) ?M"
    by (rule merged_mapping_list [OF assms])
  have "mset (concat mp) + mset (?M ! nat j) = mset (concat ?M)"
    unfolding mp by (rule concat_remove [OF lj])
  moreover have "?M ! nat j = mapping g ! nat j"
    using ne by simp
  moreover have "mset (concat ?M) = mset (concat (mapping g)) + mset (mapping g ! nat j)"
    by (rule concat_update [OF li])
  ultimately show ?thesis by simp
qed

lemma mergeVertices_valid_mapping:
  assumes shape: "int (length (adj g)) = cur_n g" and vm: "valid_mapping g"
    and i: "0 \<le> i" "i < cur_n g" and j: "0 \<le> j" "j < cur_n g" and ij: "i \<noteq> j"
    and run: "mergeVertices g i j = Inr g'"
  shows "valid_mapping g'"
proof -
  have len: "int (length (mapping g)) = cur_n g"
    and ne: "\<forall>m \<in> set (mapping g). m \<noteq> []"
    and part: "distinct (concat (mapping g))" "set (concat (mapping g)) = {0..<orig_n g}"
    using vm by (simp_all add: valid_mapping_def)
  have g': "cur_n g' = cur_n g - 1" "orig_n g' = orig_n g"
    "int (length (mapping g')) = cur_n g - 1"
    "\<forall>a. 0 \<le> a \<and> a < cur_n g - 1 \<longrightarrow>
       mapping g' ! nat a = (if old_index j a = i then mapping g ! nat i @ mapping g ! nat j
                             else mapping g ! nat (old_index j a))"
    using mergeVertices_spec [OF shape len i j] run by auto
  have ms: "mset (concat (mapping g')) = mset (concat (mapping g))"
    by (rule merged_mapping_mset [OF len i j ij g'(3,4)])
  have nonempty: "mapping g ! nat k \<noteq> []" if "0 \<le> k" "k < cur_n g" for k
    using ne that len by (simp add: nth_mem)
  have "m \<noteq> []" if m: "m \<in> set (mapping g')" for m
  proof -
    have "length (mapping g') = nat (cur_n g - 1)" using g'(3) by simp
    then have "m \<in> (\<lambda>u. mapping g' ! nat u) ` {0..<cur_n g - 1}"
      using m set_conv_int_nth by blast
    then obtain a where a: "0 \<le> a" "a < cur_n g - 1" "m = mapping g' ! nat a"
      by auto
    have "0 \<le> old_index j a" "old_index j a < cur_n g"
      using old_index_range [OF j a(1,2)] by simp_all
    then show ?thesis
      using a g'(4) nonempty [of i] nonempty [of "old_index j a"] i by auto
  qed
  moreover have "distinct (concat (mapping g'))"
    using ms part(1) by (metis mset_eq_imp_distinct_iff)
  moreover have "set (concat (mapping g')) = {0..<orig_n g'}"
    using ms part(2) g'(2) by (metis mset_eq_setD)
  ultimately show ?thesis
    using g'(1,3) by (simp add: valid_mapping_def)
qed

lemma valid_mapping_total:
  assumes "valid_mapping g" "0 \<le> orig_n g"
  shows "int (sum_list (map length (mapping g))) = orig_n g"
proof -
  have d: "distinct (concat (mapping g))" and s: "set (concat (mapping g)) = {0..<orig_n g}"
    using assms(1) unfolding valid_mapping_def by blast+
  have "sum_list (map length (mapping g)) = length (concat (mapping g))"
    by (simp add: length_concat)
  also have "\<dots> = card (set (concat (mapping g)))"
    using distinct_card [OF d] by simp
  also have "\<dots> = nat (orig_n g)"
    unfolding s by simp
  finally show ?thesis using assms(2) by simp
qed

text \<open>
  C5. Let the graph satisfy the invariants of the data model (symmetric, self-loop-free
  adjacency sets over \<open>[0, n)\<close>; the mappings are non-empty and partition \<open>[0, orig_n)\<close>;
  \<open>n \<le> orig_n\<close>) and let \<open>i \<noteq> j\<close> be vertices in \<open>[0, n)\<close>. Then \<open>mergeVertices\<close>
  returns a graph with \<open>n - 1\<close> vertices whose vertex for \<open>i\<close> (index \<open>i\<close>, or \<open>i - 1\<close>
  when \<open>j < i\<close>) is mapped to \<open>mapping[i]\<close> followed by \<open>mapping[j]\<close>, whose mapping sizes
  still sum to \<open>orig_n\<close>, and where no vertex is adjacent to itself; and \<open>addEdge\<close>
  returns a graph with the same \<open>n\<close> and mapping that satisfies the same invariants.
  Non-adjacency of \<open>i\<close> and \<open>j\<close> is not needed.
\<close>

theorem branching_operators_keep_invariants:
  assumes g: "valid_adj g" "valid_mapping g" "cur_n g \<le> orig_n g"
    and i: "0 \<le> i" "i < cur_n g" and j: "0 \<le> j" "j < cur_n g" and ij: "i \<noteq> j"
  shows "\<exists>gm ge. mergeVertices g i j = Inr gm \<and> cur_n gm = cur_n g - 1 \<and>
           mapping gm ! nat (new_index j i) = mapping g ! nat i @ mapping g ! nat j \<and>
           set (mapping gm ! nat (new_index j i))
             = set (mapping g ! nat i) \<union> set (mapping g ! nat j) \<and>
           int (sum_list (map length (mapping gm))) = orig_n g \<and>
           (\<forall>a \<in> {0..<cur_n gm}. \<not> uset_count (adj gm ! nat a) a) \<and>
           addEdge g i j = Inr ge \<and> cur_n ge = cur_n g \<and> mapping ge = mapping g \<and>
           valid_adj ge \<and> valid_mapping ge \<and> cur_n ge \<le> orig_n ge"
proof -
  have shape: "int (length (adj g)) = cur_n g" and len: "int (length (mapping g)) = cur_n g"
    using valid_adj_shape [OF g(1)] g(2) by (simp_all add: valid_mapping_def)
  obtain gm where gm: "mergeVertices g i j = Inr gm" "cur_n gm = cur_n g - 1"
    "orig_n gm = orig_n g"
    "\<forall>a. 0 \<le> a \<and> a < cur_n g - 1 \<longrightarrow>
       mapping gm ! nat a = (if old_index j a = i then mapping g ! nat i @ mapping g ! nat j
                             else mapping g ! nat (old_index j a))"
    using mergeVertices_spec [OF shape len i j] by blast
  have ni: "0 \<le> new_index j i" "new_index j i < cur_n g - 1" "old_index j (new_index j i) = i"
    using i j ij by (auto simp: new_index_def old_index_def)
  have merged: "mapping gm ! nat (new_index j i) = mapping g ! nat i @ mapping g ! nat j"
    using gm(4) ni by simp
  have vm: "valid_mapping gm"
    by (rule mergeVertices_valid_mapping [OF shape g(2) i j ij gm(1)])
  have total: "int (sum_list (map length (mapping gm))) = orig_n g"
    using valid_mapping_total [OF vm] gm(3) g(3) i by simp
  have va: "valid_adj gm"
    by (rule mergeVertices_valid_adj [OF shape len i j gm(1)])
  have noloop: "\<forall>a \<in> {0..<cur_n gm}. \<not> uset_count (adj gm ! nat a) a"
  proof
    fix a assume "a \<in> {0..<cur_n gm}"
    then show "\<not> uset_count (adj gm ! nat a) a"
      using valid_adj_nbr [OF va, of a a] by (auto simp: uset_count_def)
  qed
  obtain ge where ge: "addEdge g i j = Inr ge" "cur_n ge = cur_n g" "orig_n ge = orig_n g"
    "mapping ge = mapping g" "valid_adj ge"
    using addEdge_valid_adj [OF g(1) i j ij] by blast
  have vme: "valid_mapping ge"
    using g(2) ge(2,3,4) by (simp add: valid_mapping_def)
  have union: "set (mapping gm ! nat (new_index j i))
      = set (mapping g ! nat i) \<union> set (mapping g ! nat j)"
    unfolding merged by simp
  have le: "cur_n ge \<le> orig_n ge"
    using ge(2,3) g(3) by simp
  show ?thesis
    using gm(1,2) merged union total noloop ge(1,2,4,5) vme le by blast
qed

theorem branching_operators_keep_invariants_witness:
  "valid_adj \<lparr>cur_n = 4, orig_n = 4, adj = [[1], [0, 2], [1], []],
      mapping = [[0], [1], [2], [3]]\<rparr> \<and>
   valid_mapping \<lparr>cur_n = 4, orig_n = 4, adj = [[1], [0, 2], [1], []],
      mapping = [[0], [1], [2], [3]]\<rparr> \<and>
   mergeVertices \<lparr>cur_n = 4, orig_n = 4, adj = [[1], [0, 2], [1], []],
      mapping = [[0], [1], [2], [3]]\<rparr> 0 2
     = Inr \<lparr>cur_n = 3, orig_n = 4, adj = [[1], [0], []], mapping = [[0, 2], [1], [3]]\<rparr> \<and>
   addEdge \<lparr>cur_n = 4, orig_n = 4, adj = [[1], [0, 2], [1], []],
      mapping = [[0], [1], [2], [3]]\<rparr> 0 2
     = Inr \<lparr>cur_n = 4, orig_n = 4, adj = [[1, 2], [0, 2], [1, 0], []],
        mapping = [[0], [1], [2], [3]]\<rparr>"
proof -
  let ?g = "\<lparr>cur_n = 4, orig_n = 4, adj = [[1], [0, 2], [1], []],
      mapping = [[0], [1], [2], [3]]\<rparr>"
  have v: "valid_adj ?g" by code_simp
  have m: "valid_mapping ?g" by code_simp
  have e1: "mergeVertices ?g 0 2
     = Inr \<lparr>cur_n = 3, orig_n = 4, adj = [[1], [0], []], mapping = [[0, 2], [1], [3]]\<rparr>"
    by code_simp
  have e2: "addEdge ?g 0 2
     = Inr \<lparr>cur_n = 4, orig_n = 4, adj = [[1, 2], [0, 2], [1, 0], []],
        mapping = [[0], [1], [2], [3]]\<rparr>"
    by code_simp
  show ?thesis
    using branching_operators_keep_invariants [OF v m, of 0 2] v m e1 e2 by simp
qed

section \<open>The time gate\<close>

text \<open>
  C6. When the clock read at the entry of \<open>branchAndBound\<close> shows an elapsed time of at
  least \<open>timeLimit\<close>, the call returns with \<open>searchCompleted\<close> false and with the
  \<open>bestSolution\<close> it was given; the only other change is that the clock has been read once.
\<close>

theorem branchAndBound_time_gate:
  assumes "timeLimit \<le> elapsed (clock_reads gl)"
  shows "branchAndBound (Suc fuel) elapsed timeLimit g depth (gl, bestSolution)
     = Inr (gl\<lparr>searchCompleted := False, clock_reads := clock_reads gl + 1\<rparr>, bestSolution)"
  using assms by simp

theorem branchAndBound_time_gate_witness:
  "(5 :: int) \<le> (\<lambda>k. 7) (clock_reads \<lparr>searchCompleted = True, clock_reads = 3\<rparr>) \<and>
   branchAndBound (Suc 0) (\<lambda>k. 7) (5 :: int)
      \<lparr>cur_n = 2, orig_n = 2, adj = [[1], [0]], mapping = [[0], [1]]\<rparr> 0
      (\<lparr>searchCompleted = True, clock_reads = 3\<rparr>, \<lparr>numColors = 2, coloring = [0, 1]\<rparr>)
     = Inr (\<lparr>searchCompleted = False, clock_reads = 4\<rparr>, \<lparr>numColors = 2, coloring = [0, 1]\<rparr>)"
  using branchAndBound_time_gate [of "5 :: int" "\<lambda>k. 7" "\<lparr>searchCompleted = True, clock_reads = 3\<rparr>"
      0 "\<lparr>cur_n = 2, orig_n = 2, adj = [[1], [0]], mapping = [[0], [1]]\<rparr>" 0
      "\<lparr>numColors = 2, coloring = [0, 1]\<rparr>"]
  by simp

section \<open>The driver on the empty graph\<close>

text \<open>
  C7. The graph read from a file that declares no vertex is \<^verbatim>\<open>Graph(0)\<close>. It has no
  connected component, so \<^verbatim>\<open>components.size() > 1\<close> is false and the single-component
  path evaluates \<^verbatim>\<open>components[0]\<close> on the empty vector, for every time limit and clock.
\<close>

theorem solve_empty_graph_faults:
  "Graph 0 = Inr \<lparr>cur_n = 0, orig_n = 0, adj = [], mapping = []\<rparr> \<and>
   findConnectedComponents fuel \<lparr>cur_n = 0, orig_n = 0, adj = [], mapping = []\<rparr> = Inr [] \<and>
   solve fuel elapsed timeLimit \<lparr>cur_n = 0, orig_n = 0, adj = [], mapping = []\<rparr> gl
     = Inl OutOfBounds"
  by (simp add: Graph_def findConnectedComponents_def solve_def for_range.simps vec_at_def)

section \<open>The stored colouring is proper on the original graph\<close>

lemma covers_edgesD:
  assumes "covers_edges g0 g" "0 \<le> p" "p < cur_n g" "0 \<le> q" "q < cur_n g"
    "x \<in> set (mapping g ! nat p)" "y \<in> set (mapping g ! nat q)" "y \<in> set (adj g0 ! nat x)"
  shows "q \<in> set (adj g ! nat p)"
proof -
  have "p \<in> {0..<cur_n g}" "q \<in> {0..<cur_n g}" using assms by simp_all
  then show ?thesis
    using assms(1,6,7,8) unfolding covers_edges_def by blast
qed

lemma covers_edgesI:
  assumes "\<And>p q x y. 0 \<le> p \<Longrightarrow> p < cur_n g \<Longrightarrow> 0 \<le> q \<Longrightarrow> q < cur_n g \<Longrightarrow>
      x \<in> set (mapping g ! nat p) \<Longrightarrow> y \<in> set (mapping g ! nat q) \<Longrightarrow>
      y \<in> set (adj g0 ! nat x) \<Longrightarrow> q \<in> set (adj g ! nat p)"
  shows "covers_edges g0 g"
  unfolding covers_edges_def using assms by simp

lemma identity_mapping_nth:
  assumes "0 \<le> p" "p < n"
  shows "map (\<lambda>i. [i]) [0..n - 1] ! nat p = [p]"
  using assms by simp

lemma concat_singletons: "concat (map (\<lambda>i. [i]) xs) = xs"
  by (induction xs) simp_all

lemma represents_original:
  assumes "original g0"
  shows "represents g0 g0"
proof -
  have va: "valid_adj g0" and on: "orig_n g0 = cur_n g0"
    and mp: "mapping g0 = map (\<lambda>i. [i]) [0..cur_n g0 - 1]"
    using assms by (simp_all add: original_def)
  have n0: "0 \<le> cur_n g0" using valid_adj_shape [OF va] by simp
  have "set [0..cur_n g0 - 1] = {0..<cur_n g0}" by auto
  then have vm: "valid_mapping g0"
    unfolding valid_mapping_def mp concat_singletons using n0 on by simp
  have "covers_edges g0 g0"
  proof (rule covers_edgesI)
    fix p q x y
    assume "0 \<le> p" "p < cur_n g0" "0 \<le> q" "q < cur_n g0"
      "x \<in> set (mapping g0 ! nat p)" "y \<in> set (mapping g0 ! nat q)" "y \<in> set (adj g0 ! nat x)"
    then show "q \<in> set (adj g0 ! nat p)"
      unfolding mp by (simp add: identity_mapping_nth)
  qed
  then show ?thesis
    using va vm on by (simp add: represents_def)
qed

lemma represents_addEdge:
  assumes rep: "represents g0 g" and i: "0 \<le> i" "i < cur_n g" and j: "0 \<le> j" "j < cur_n g"
    and ij: "i \<noteq> j" and run: "addEdge g i j = Inr g'"
  shows "represents g0 g'"
proof -
  have va: "valid_adj g" and vm: "valid_mapping g" and on: "orig_n g = cur_n g0"
    and ce: "covers_edges g0 g"
    using rep by (simp_all add: represents_def)
  have g': "cur_n g' = cur_n g" "orig_n g' = orig_n g" "mapping g' = mapping g" "valid_adj g'"
    "edges_of (adj g') = insert (j, i) (insert (i, j) (edges_of (adj g)))"
    using addEdge_valid_adj [OF va i j ij] run by auto
  have len: "int (length (adj g)) = cur_n g" "int (length (adj g')) = cur_n g"
    using valid_adj_shape [OF va] valid_adj_shape [OF g'(4)] g'(1) by simp_all
  have "covers_edges g0 g'"
  proof (rule covers_edgesI)
    fix p q x y
    assume pq: "0 \<le> p" "p < cur_n g'" "0 \<le> q" "q < cur_n g'"
      and xy: "x \<in> set (mapping g' ! nat p)" "y \<in> set (mapping g' ! nat q)"
        "y \<in> set (adj g0 ! nat x)"
    have "q \<in> set (adj g ! nat p)"
      using covers_edgesD [OF ce, of p q x y] pq xy g'(1,3) by simp
    then have "(p, q) \<in> edges_of (adj g)"
      using pq g'(1) len by (simp add: edges_of_mem)
    then have "(p, q) \<in> edges_of (adj g')"
      unfolding g'(5) by simp
    then show "q \<in> set (adj g' ! nat p)"
      by (simp add: edges_of_mem)
  qed
  moreover have "valid_mapping g'"
    using vm g'(1,2,3) by (simp add: valid_mapping_def)
  ultimately show ?thesis
    using g'(2,4) on by (simp add: represents_def)
qed

lemma merged_edge_classes:
  assumes va: "valid_adj g" and i: "0 \<le> i" "i < cur_n g" and j: "0 \<le> j" "j < cur_n g"
    and p: "p = oa \<or> (oa = i \<and> p = j)" and q: "q = ob \<or> (ob = i \<and> q = j)"
    and ne: "oa \<noteq> ob"
    and pr: "0 \<le> p" "p < cur_n g"
    and edge: "q \<in> set (adj g ! nat p)"
  shows "merged_edge g i j oa ob"
proof -
  have rev_edge: "p \<in> set (adj g ! nat q)" and pq: "q \<noteq> p"
    using valid_adj_nbr [OF va pr edge] by simp_all
  show ?thesis
    using p q ne edge rev_edge pq unfolding merged_edge_def by auto
qed


lemma represents_merge:
  assumes rep: "represents g0 g" and i: "0 \<le> i" "i < cur_n g" and j: "0 \<le> j" "j < cur_n g"
    and ij: "i \<noteq> j" and nonadj: "\<not> uset_count (adj g ! nat i) j"
    and run: "mergeVertices g i j = Inr g'"
  shows "represents g0 g'"
proof -
  let ?m = "cur_n g - 1"
  let ?S = "{(x, y). 0 \<le> x \<and> x < y \<and> y < ?m}"
  have va: "valid_adj g" and vm: "valid_mapping g" and on: "orig_n g = cur_n g0"
    and ce: "covers_edges g0 g"
    using rep by (simp_all add: represents_def)
  have shape: "int (length (adj g)) = cur_n g" and len: "int (length (mapping g)) = cur_n g"
    using valid_adj_shape [OF va] vm by (simp_all add: valid_mapping_def)
  have g': "cur_n g' = ?m" "orig_n g' = orig_n g"
    "\<forall>a. 0 \<le> a \<and> a < ?m \<longrightarrow>
       mapping g' ! nat a = (if old_index j a = i then mapping g ! nat i @ mapping g ! nat j
                             else mapping g ! nat (old_index j a))"
    "int (length (adj g')) = ?m" "edges_of (adj g') = sym_edges g i j ?S"
    using mergeVertices_spec [OF shape len i j] run by auto
  have va': "valid_adj g'"
    by (rule mergeVertices_valid_adj [OF shape len i j run])
  have vm': "valid_mapping g'"
    by (rule mergeVertices_valid_mapping [OF shape vm i j ij run])
  have ji: "j \<notin> set (adj g ! nat i)" and ij': "i \<notin> set (adj g ! nat j)"
    using nonadj valid_adj_nbr [OF va j, of i] by (auto simp: uset_count_def)
  have cls: "\<exists>p. (p = old_index j a \<or> (old_index j a = i \<and> p = j)) \<and> 0 \<le> p \<and> p < cur_n g \<and>
               x \<in> set (mapping g ! nat p)"
    if a: "0 \<le> a" "a < ?m" and x: "x \<in> set (mapping g' ! nat a)" for a x
  proof -
    have o: "0 \<le> old_index j a" "old_index j a < cur_n g"
      using old_index_range [OF j a] by simp_all
    show ?thesis
    proof (cases "old_index j a = i")
      case True
      then have "x \<in> set (mapping g ! nat i) \<or> x \<in> set (mapping g ! nat j)"
        using g'(3) a x by auto
      then show ?thesis using True i j by auto
    next
      case False
      then have "x \<in> set (mapping g ! nat (old_index j a))"
        using g'(3) a x by auto
      then show ?thesis using o by auto
    qed
  qed
  have "covers_edges g0 g'"
  proof (rule covers_edgesI)
    fix a b x y
    assume ab: "0 \<le> a" "a < cur_n g'" "0 \<le> b" "b < cur_n g'"
      and xy: "x \<in> set (mapping g' ! nat a)" "y \<in> set (mapping g' ! nat b)"
        "y \<in> set (adj g0 ! nat x)"
    have ar: "a < ?m" and br: "b < ?m" using ab g'(1) by simp_all
    obtain p where p: "p = old_index j a \<or> (old_index j a = i \<and> p = j)" "0 \<le> p" "p < cur_n g"
      "x \<in> set (mapping g ! nat p)"
      using cls [OF ab(1) ar xy(1)] by blast
    obtain q where q: "q = old_index j b \<or> (old_index j b = i \<and> q = j)" "0 \<le> q" "q < cur_n g"
      "y \<in> set (mapping g ! nat q)"
      using cls [OF ab(3) br xy(2)] by blast
    have pq: "q \<in> set (adj g ! nat p)"
      by (rule covers_edgesD [OF ce p(2,3) q(2,3) p(4) q(4) xy(3)])
    have qp: "p \<in> set (adj g ! nat q)" and ne: "q \<noteq> p"
      using valid_adj_nbr [OF va p(2,3) pq] by simp_all
    have oj: "old_index j a \<noteq> j" "old_index j b \<noteq> j"
      using old_index_range(3) [OF j ab(1) ar] old_index_range(3) [OF j ab(3) br] by simp_all
    have differ: "a \<noteq> b"
    proof
      assume "a = b"
      then have "(p = i \<and> q = j) \<or> (p = j \<and> q = i)"
        using p(1) q(1) ne by auto
      then show False using pq ji ij' by auto
    qed
    then have od: "old_index j a \<noteq> old_index j b"
      using old_index_inj by blast
    have fwd: "merged_edge g i j (old_index j a) (old_index j b)"
      by (rule merged_edge_classes [OF va i j p(1) q(1) od p(2,3) pq])
    have bwd: "merged_edge g i j (old_index j b) (old_index j a)"
      by (rule merged_edge_classes [OF va i j q(1) p(1) od [symmetric] q(2,3) qp])
    have "(a, b) \<in> sym_edges g i j ?S"
    proof (cases "a < b")
      case True
      then have "(a, b) \<in> ?S" using ab br by simp
      then show ?thesis using fwd by (simp add: sym_edges_def)
    next
      case False
      then have "(b, a) \<in> ?S" using ab ar differ by simp
      then show ?thesis using bwd by (simp add: sym_edges_def)
    qed
    then have "(a, b) \<in> edges_of (adj g')"
      using g'(5) by simp
    then show "b \<in> set (adj g' ! nat a)"
      by (simp add: edges_of_mem)
  qed
  then show ?thesis
    using va' vm' g'(2) on by (simp add: represents_def)
qed

lemma reachable_represents:
  assumes "reachable g0 g" "original g0"
  shows "represents g0 g"
  using assms
proof (induction rule: reachable.induct)
  case start
  then show ?case by (rule represents_original)
next
  case (merge g i j g')
  then show ?case using represents_merge by blast
next
  case (edge g i j g')
  then show ?case using represents_addEdge by blast
qed

lemma concat_disjoint_lt:
  assumes "distinct (concat xs)" "i < j" "j < length xs"
  shows "set (xs ! i) \<inter> set (xs ! j) = {}"
proof -
  have i: "i < length xs" using assms by simp
  have "xs = take i xs @ xs ! i # drop (Suc i) xs"
    using i by (rule id_take_nth_drop)
  then have "concat xs = concat (take i xs) @ xs ! i @ concat (drop (Suc i) xs)"
    by (metis concat.simps(2) concat_append)
  then have "distinct (concat (take i xs) @ xs ! i @ concat (drop (Suc i) xs))"
    using assms(1) by simp
  then have disj: "set (xs ! i) \<inter> set (concat (drop (Suc i) xs)) = {}"
    by simp
  have "drop (Suc i) xs ! (j - Suc i) = xs ! j"
    using assms by simp
  moreover have "j - Suc i < length (drop (Suc i) xs)"
    using assms by simp
  ultimately have "xs ! j \<in> set (drop (Suc i) xs)"
    by (metis nth_mem)
  then show ?thesis using disj by auto
qed

lemma concat_disjoint:
  assumes "distinct (concat xs)" "i < length xs" "j < length xs" "i \<noteq> j"
  shows "set (xs ! i) \<inter> set (xs ! j) = {}"
proof (cases "i < j")
  case True
  then show ?thesis using concat_disjoint_lt [OF assms(1) _ assms(3)] by simp
next
  case False
  then have "j < i" using assms(4) by simp
  then show ?thesis using concat_disjoint_lt [OF assms(1) _ assms(2), of j] by auto
qed

lemma valid_mapping_len: "valid_mapping g \<Longrightarrow> int (length (mapping g)) = cur_n g"
  unfolding valid_mapping_def by blast

lemma valid_mapping_set: "valid_mapping g \<Longrightarrow> set (concat (mapping g)) = {0..<orig_n g}"
  unfolding valid_mapping_def by blast

lemma valid_mapping_class:
  assumes vm: "valid_mapping g" and p: "0 \<le> p" "p < cur_n g" and x: "x \<in> set (mapping g ! nat p)"
  shows "0 \<le> x \<and> x < orig_n g"
proof -
  have "nat p < length (mapping g)" using valid_mapping_len [OF vm] p by simp
  then have "mapping g ! nat p \<in> set (mapping g)" by simp
  then have "x \<in> set (concat (mapping g))" using x by auto
  then show ?thesis unfolding valid_mapping_set [OF vm] by simp
qed

lemma valid_mapping_disjoint:
  assumes vm: "valid_mapping g" and p: "0 \<le> p" "p < cur_n g" and q: "0 \<le> q" "q < cur_n g"
    and pq: "p \<noteq> q" and x: "x \<in> set (mapping g ! nat p)"
  shows "x \<notin> set (mapping g ! nat q)"
proof -
  have d: "distinct (concat (mapping g))" and len: "int (length (mapping g)) = cur_n g"
    using vm unfolding valid_mapping_def by blast+
  have "nat p < length (mapping g)" "nat q < length (mapping g)" "nat p \<noteq> nat q"
    using p q pq len by auto
  then have "set (mapping g ! nat p) \<inter> set (mapping g ! nat q) = {}"
    using concat_disjoint [OF d] by blast
  then show ?thesis using x by auto
qed

lemma valid_mapping_cover:
  assumes vm: "valid_mapping g" and x: "0 \<le> x" "x < orig_n g"
  shows "\<exists>p. 0 \<le> p \<and> p < cur_n g \<and> x \<in> set (mapping g ! nat p)"
proof -
  have len: "length (mapping g) = nat (cur_n g)"
    using valid_mapping_len [OF vm] by simp
  have "x \<in> set (concat (mapping g))"
    unfolding valid_mapping_set [OF vm] using x by simp
  then obtain m where m: "m \<in> set (mapping g)" "x \<in> set m" by auto
  then have "m \<in> (\<lambda>u. mapping g ! nat u) ` {0..<cur_n g}"
    using set_conv_int_nth [OF len] by simp
  then show ?thesis using m(2) by auto
qed


lemma lift_row_spec:
  assumes vm: "valid_mapping g" and k: "0 \<le> k" "k < cur_n g"
    and clen: "length colors = nat (cur_n g)" and len: "length lifted = nat (orig_n g)"
  shows "\<exists>l'. lift_row g colors k lifted = Inr l' \<and> length l' = nat (orig_n g) \<and>
           (\<forall>x \<in> set (mapping g ! nat k). l' ! nat x = colors ! nat k) \<and>
           (\<forall>y. 0 \<le> y \<and> y \<notin> set (mapping g ! nat k) \<longrightarrow> l' ! nat y = lifted ! nat y)"
proof -
  let ?mk = "mapping g ! nat k" and ?c = "colors ! nat k"
  let ?J = "\<lambda>pre l. length l = nat (orig_n g) \<and> (\<forall>x \<in> set pre. 0 \<le> x \<and> l ! nat x = ?c) \<and>
              (\<forall>y. 0 \<le> y \<and> y \<notin> set ?mk \<longrightarrow> l ! nat y = lifted ! nat y)"
  have rd: "vec_at (mapping g) k = Inr ?mk"
    using valid_mapping_len [OF vm] k by simp
  have ck: "vec_at colors k = Inr ?c"
    using clen k by simp
  have "\<exists>l'. for_each ?mk (lift_body colors k) lifted = Inr l' \<and> ?J ?mk l'"
  proof (rule for_each_rule [where I = ?J])
    show "?J [] lifted" using len by simp
  next
    fix pre x l
    assume inv: "?J pre l" and x: "x \<in> set ?mk"
    have xr: "0 \<le> x" "x < orig_n g"
      using valid_mapping_class [OF vm k x] by simp_all
    have run: "lift_body colors k x l = Inr (l[nat x := ?c])"
      using ck xr inv by (simp add: lift_body_def)
    have lx: "nat x < length l" using xr inv by simp
    have same: "nat y = nat x \<longleftrightarrow> y = x" if "0 \<le> y" for y
      using that xr by auto
    have "l[nat x := ?c] ! nat y = ?c" if "y \<in> set (pre @ [x])" for y
    proof (cases "y = x")
      case True
      then show ?thesis using lx by simp
    next
      case False
      then have "y \<in> set pre" using that by simp
      then have "0 \<le> y" "l ! nat y = ?c" using inv by simp_all
      then show ?thesis using False same [of y] by simp
    qed
    moreover have "0 \<le> y" if "y \<in> set (pre @ [x])" for y
      using that inv xr by auto
    moreover have "l[nat x := ?c] ! nat y = lifted ! nat y" if "0 \<le> y" "y \<notin> set ?mk" for y
    proof -
      have "y \<noteq> x" using that x by auto
      then have "nat y \<noteq> nat x" using same [OF that(1)] by simp
      then show ?thesis using inv that by simp
    qed
    ultimately have "?J (pre @ [x]) (l[nat x := ?c])"
      using inv by simp
    then show "\<exists>s'. lift_body colors k x l = Inr s' \<and> ?J (pre @ [x]) s'"
      using run by simp
  qed
  then show ?thesis
    using rd by (auto simp: lift_row_def)
qed

lemma lift_loop_spec:
  assumes vm: "valid_mapping g" and n0: "0 \<le> cur_n g"
    and clen: "length colors = nat (cur_n g)"
  shows "\<exists>lifted. for_range 0 (cur_n g) (lift_row g colors) (replicate (nat (orig_n g)) (- 1))
             = Inr lifted \<and> length lifted = nat (orig_n g) \<and>
           (\<forall>p. 0 \<le> p \<and> p < cur_n g \<longrightarrow>
              (\<forall>x \<in> set (mapping g ! nat p). lifted ! nat x = colors ! nat p))"
proof -
  let ?I = "\<lambda>k l. length l = nat (orig_n g) \<and>
              (\<forall>p. 0 \<le> p \<and> p < k \<longrightarrow>
                 (\<forall>x \<in> set (mapping g ! nat p). l ! nat x = colors ! nat p))"
  have "\<exists>lifted. for_range 0 (cur_n g) (lift_row g colors) (replicate (nat (orig_n g)) (- 1))
             = Inr lifted \<and> ?I (cur_n g) lifted"
  proof (rule for_range_rule [where I = ?I])
    show "0 \<le> cur_n g" by fact
    show "?I 0 (replicate (nat (orig_n g)) (- 1))" by auto
  next
    fix k l
    assume k: "0 \<le> k" "k < cur_n g" and inv: "?I k l"
    have len: "length l = nat (orig_n g)" using inv by simp
    obtain l' where l': "lift_row g colors k l = Inr l'" "length l' = nat (orig_n g)"
      "\<forall>x \<in> set (mapping g ! nat k). l' ! nat x = colors ! nat k"
      "\<forall>y. 0 \<le> y \<and> y \<notin> set (mapping g ! nat k) \<longrightarrow> l' ! nat y = l ! nat y"
      using lift_row_spec [OF vm k clen len] by blast
    have "l' ! nat x = colors ! nat p"
      if p: "0 \<le> p" "p < k + 1" and x: "x \<in> set (mapping g ! nat p)" for p x
    proof (cases "p = k")
      case True
      then show ?thesis using l'(3) x by simp
    next
      case False
      then have pk: "p < k" "p < cur_n g" using p k by simp_all
      have "x \<notin> set (mapping g ! nat k)"
        by (rule valid_mapping_disjoint [OF vm p(1) pk(2) k False x])
      moreover have "0 \<le> x"
        using valid_mapping_class [OF vm p(1) pk(2) x] by simp
      ultimately have "l' ! nat x = l ! nat x" using l'(4) by simp
      then show ?thesis using inv p(1) pk(1) x by simp
    qed
    then have "?I (k + 1) l'" using l'(2) by blast
    then show "\<exists>s'. lift_row g colors k l = Inr s' \<and> ?I (k + 1) s'"
      using l'(1) by blast
  qed
  then show ?thesis by blast
qed

lemma update_best_spec:
  assumes g0: "original g0" and reach: "reachable g0 g"
    and hc: "heuristicColoring g = Inr (ub, colors)"
    and better: "ub < numColors bestSolution"
  shows "\<exists>best'. update_best g ub colors bestSolution = Inr best' \<and> numColors best' = ub \<and>
           length (coloring best') = nat (cur_n g0) \<and>
           (\<forall>u \<in> {0..<cur_n g0}. \<forall>w \<in> set (adj g0 ! nat u).
              coloring best' ! nat u \<noteq> coloring best' ! nat w) \<and>
           (\<forall>c \<in> set (coloring best'). 0 \<le> c \<and> c < numColors best')"
proof -
  have rep: "represents g0 g"
    by (rule reachable_represents [OF reach g0])
  then have va: "valid_adj g" and vm: "valid_mapping g" and on: "orig_n g = cur_n g0"
    and ce: "covers_edges g0 g"
    by (simp_all add: represents_def)
  have va0: "valid_adj g0" using g0 by (simp add: original_def)
  have n0: "0 \<le> cur_n g" and m0: "0 \<le> cur_n g0"
    using valid_adj_shape [OF va] valid_adj_shape [OF va0] by simp_all
  have col: "length colors = nat (cur_n g)"
    "\<forall>u \<in> {0..<cur_n g}. \<forall>w \<in> set (adj g ! nat u). colors ! nat u \<noteq> colors ! nat w"
    "\<forall>c \<in> set colors. 0 \<le> c \<and> c < ub"
    using heuristicColoring_spec [OF va] hc by auto
  obtain lifted where lifted:
    "for_range 0 (cur_n g) (lift_row g colors) (replicate (nat (orig_n g)) (- 1)) = Inr lifted"
    "length lifted = nat (orig_n g)"
    "\<forall>p. 0 \<le> p \<and> p < cur_n g \<longrightarrow>
       (\<forall>x \<in> set (mapping g ! nat p). lifted ! nat x = colors ! nat p)"
    using lift_loop_spec [OF vm n0 col(1)] by blast
  have run: "update_best g ub colors bestSolution = Inr \<lparr>numColors = ub, coloring = lifted\<rparr>"
    using better lifted(1) on m0 by (simp add: update_best_def)
  have cls: "\<exists>p. 0 \<le> p \<and> p < cur_n g \<and> x \<in> set (mapping g ! nat p) \<and>
               lifted ! nat x = colors ! nat p"
    if x: "0 \<le> x" "x < cur_n g0" for x
  proof -
    obtain p where "0 \<le> p" "p < cur_n g" "x \<in> set (mapping g ! nat p)"
      using valid_mapping_cover [OF vm, of x] x on by auto
    then show ?thesis using lifted(3) by blast
  qed
  have proper: "\<forall>u \<in> {0..<cur_n g0}. \<forall>w \<in> set (adj g0 ! nat u). lifted ! nat u \<noteq> lifted ! nat w"
  proof (intro ballI)
    fix u w assume u: "u \<in> {0..<cur_n g0}" and w: "w \<in> set (adj g0 ! nat u)"
    have ur: "0 \<le> u" "u < cur_n g0" using u by simp_all
    have wr: "0 \<le> w" "w < cur_n g0" using valid_adj_nbr [OF va0 ur w] by simp_all
    obtain p where p: "0 \<le> p" "p < cur_n g" "u \<in> set (mapping g ! nat p)"
      "lifted ! nat u = colors ! nat p"
      using cls [OF ur] by blast
    obtain q where q: "0 \<le> q" "q < cur_n g" "w \<in> set (mapping g ! nat q)"
      "lifted ! nat w = colors ! nat q"
      using cls [OF wr] by blast
    have "q \<in> set (adj g ! nat p)"
      by (rule covers_edgesD [OF ce p(1,2) q(1,2) p(3) q(3) w])
    then have "colors ! nat p \<noteq> colors ! nat q"
      using col(2) p(1,2) by simp
    then show "lifted ! nat u \<noteq> lifted ! nat w"
      using p(4) q(4) by simp
  qed
  have range: "\<forall>c \<in> set lifted. 0 \<le> c \<and> c < ub"
  proof
    fix c assume "c \<in> set lifted"
    then have "c \<in> (\<lambda>x. lifted ! nat x) ` {0..<orig_n g}"
      using set_conv_int_nth [OF lifted(2)] by simp
    then obtain x where x: "0 \<le> x" "x < cur_n g0" "c = lifted ! nat x"
      using on by auto
    obtain p where p: "0 \<le> p" "p < cur_n g" "lifted ! nat x = colors ! nat p"
      using cls [OF x(1,2)] by blast
    have "nat p < length colors" using p col(1) by simp
    then have "colors ! nat p \<in> set colors" by simp
    then show "0 \<le> c \<and> c < ub" using col(3) x(3) p(3) by simp
  qed
  show ?thesis
    using run lifted(2) on proper range by simp
qed

text \<open>
  C2. Let \<open>g0\<close> be an input graph (symmetric, self-loop-free adjacency, every vertex
  mapped to itself) and let \<open>g\<close> be reached from it by \<open>mergeVertices\<close> and \<open>addEdge\<close> on
  pairs of distinct non-adjacent vertices. When the colouring \<open>(ub, colors)\<close> that
  \<open>heuristicColoring\<close> returns on \<open>g\<close> has \<open>ub\<close> below \<open>bestSolution.numColors\<close>, the
  update of the best solution stores \<open>ub\<close> and a colouring of the vertices of \<open>g0\<close> that
  gives different colours to the two ends of every edge of \<open>g0\<close>, with every entry in
  \<open>[0, numColors)\<close>.
\<close>

theorem stored_coloring_proper:
  assumes g0: "original g0" and reach: "reachable g0 g"
    and hc: "heuristicColoring g = Inr (ub, colors)"
    and better: "ub < numColors bestSolution"
  shows "\<exists>best'. update_best g ub colors bestSolution = Inr best' \<and> numColors best' = ub \<and>
           length (coloring best') = nat (cur_n g0) \<and>
           (\<forall>u \<in> {0..<cur_n g0}. \<forall>w \<in> set (adj g0 ! nat u).
              coloring best' ! nat u \<noteq> coloring best' ! nat w) \<and>
           (\<forall>c \<in> set (coloring best'). 0 \<le> c \<and> c < numColors best')"
  using assms by (rule update_best_spec)

theorem stored_coloring_proper_witness:
  "original \<lparr>cur_n = 3, orig_n = 3, adj = [[1], [0, 2], [1]], mapping = [[0], [1], [2]]\<rparr> \<and>
   reachable \<lparr>cur_n = 3, orig_n = 3, adj = [[1], [0, 2], [1]], mapping = [[0], [1], [2]]\<rparr>
     \<lparr>cur_n = 2, orig_n = 3, adj = [[1], [0]], mapping = [[0, 2], [1]]\<rparr> \<and>
   heuristicColoring \<lparr>cur_n = 2, orig_n = 3, adj = [[1], [0]], mapping = [[0, 2], [1]]\<rparr>
     = Inr (2, [0, 1]) \<and>
   update_best \<lparr>cur_n = 2, orig_n = 3, adj = [[1], [0]], mapping = [[0, 2], [1]]\<rparr> 2 [0, 1]
     ColoringSolution = Inr \<lparr>numColors = 2, coloring = [0, 1, 0]\<rparr>"
proof -
  let ?start = "\<lparr>cur_n = 3, orig_n = 3, adj = [[1], [0, 2], [1]], mapping = [[0], [1], [2]]\<rparr>"
  let ?child = "\<lparr>cur_n = 2, orig_n = 3, adj = [[1], [0]], mapping = [[0, 2], [1]]\<rparr>"
  have "valid_adj ?start" by code_simp
  then have o: "original ?start" by (simp add: original_def upto.simps)
  have m: "mergeVertices ?start 0 2 = Inr ?child" by code_simp
  have n: "\<not> uset_count (adj ?start ! nat 0) 2" by code_simp
  have r: "reachable ?start ?child"
    by (rule reachable.merge [OF reachable.start _ _ _ _ _ n m]) simp_all
  have h: "heuristicColoring ?child = Inr (2, [0, 1])" by code_simp
  have b: "2 < numColors ColoringSolution" by code_simp
  have u: "update_best ?child 2 [0, 1] ColoringSolution = Inr \<lparr>numColors = 2, coloring = [0, 1, 0]\<rparr>"
    by code_simp
  show ?thesis
    using stored_coloring_proper [OF o r h b] o r h u by simp
qed

section \<open>The best solution along a whole search\<close>

text \<open>
  The update studied above is the only place where \<open>branchAndBound\<close> writes the best
  solution, and the graphs of its recursive calls are reached by the branching operators
  on the pair that \<open>selectBranchingPair\<close> returns, which is non-adjacent. So a search
  that returns has kept the best solution proper, and has not increased its number of
  colours.
\<close>

lemma update_best_ok:
  assumes g0: "original g0" and reach: "reachable g0 g"
    and hc: "heuristicColoring g = Inr (ub, colors)"
    and ok: "solution_ok g0 best"
    and run: "update_best g ub colors best = Inr best1"
  shows "solution_ok g0 best1 \<and> numColors best1 \<le> numColors best"
proof (cases "ub < numColors best")
  case True
  then show ?thesis
    using update_best_spec [OF g0 reach hc True] run by (auto simp: solution_ok_def)
next
  case False
  then have "best1 = best" using run by (simp add: update_best_def)
  then show ?thesis using ok by simp
qed

lemma branching_pair_reachable:
  assumes g0: "original g0" and reach: "reachable g0 g"
    and sel: "selectBranchingPair g = Inr (v1, v2)" and v1: "v1 \<noteq> - 1"
    and mg: "mergeVertices g v1 v2 = Inr childMerge" and ed: "addEdge g v1 v2 = Inr childEdge"
  shows "reachable g0 childMerge" "reachable g0 childEdge"
proof -
  have va: "valid_adj g"
    using reachable_represents [OF reach g0] by (simp add: represents_def)
  have "0 \<le> cur_n g" "int (length (adj g)) = cur_n g"
    using valid_adj_shape [OF va] by simp_all
  then have "nonadj g v1 v2"
    using selectBranchingPair_spec [of g] sel v1 by auto
  then have p: "0 \<le> v1" "v1 < cur_n g" "0 \<le> v2" "v2 < cur_n g" "v1 \<noteq> v2"
    "\<not> uset_count (adj g ! nat v1) v2"
    by (simp_all add: nonadj_def)
  show "reachable g0 childMerge"
    by (rule reachable.merge [OF reach p mg])
  show "reachable g0 childEdge"
    by (rule reachable.edge [OF reach p ed])
qed

lemma branchAndBound_cases:
  assumes "branchAndBound (Suc fuel) elapsed timeLimit g depth (gl, best) = Inr (gl', best')"
  obtains
    (gate) "timeLimit \<le> elapsed (clock_reads gl)" "best' = best"
  | (leaf) lb clique ub colors where
      "heuristicMaxClique fuel g = Inr (lb, clique)" "heuristicColoring g = Inr (ub, colors)"
      "update_best g ub colors best = Inr best'"
  | (branch) lb clique ub colors best1 v1 v2 childMerge childEdge gl1 gl2 best2 where
      "heuristicMaxClique fuel g = Inr (lb, clique)" "heuristicColoring g = Inr (ub, colors)"
      "update_best g ub colors best = Inr best1"
      "selectBranchingPair g = Inr (v1, v2)" "v1 \<noteq> - 1"
      "mergeVertices g v1 v2 = Inr childMerge" "addEdge g v1 v2 = Inr childEdge"
      "branchAndBound fuel elapsed timeLimit childMerge (depth + 1) (gl1, best1)
         = Inr (gl2, best2)"
      "branchAndBound fuel elapsed timeLimit childEdge (depth + 1) (gl2, best2)
         = Inr (gl', best')"
  using assms
  by (auto split: sum.splits prod.splits if_splits simp: Let_def)

lemma branchAndBound_keeps_solution:
  assumes g0: "original g0"
  shows "reachable g0 g \<Longrightarrow> solution_ok g0 best \<Longrightarrow>
         branchAndBound fuel elapsed timeLimit g depth (gl, best) = Inr (gl', best') \<Longrightarrow>
         solution_ok g0 best' \<and> numColors best' \<le> numColors best"
proof (induction fuel arbitrary: g depth gl best gl' best')
  case 0
  then show ?case by simp
next
  case (Suc fuel)
  note reach = Suc.prems(1) and ok = Suc.prems(2)
  from Suc.prems(3) show ?case
  proof (cases rule: branchAndBound_cases)
    case gate
    then show ?thesis using ok by simp
  next
    case (leaf lb clique ub colors)
    then show ?thesis using update_best_ok [OF g0 reach _ ok] by blast
  next
    case (branch lb clique ub colors best1 v1 v2 childMerge childEdge gl1 gl2 best2)
    have s1: "solution_ok g0 best1 \<and> numColors best1 \<le> numColors best"
      by (rule update_best_ok [OF g0 reach branch(2) ok branch(3)])
    have rm: "reachable g0 childMerge" and re: "reachable g0 childEdge"
      using branching_pair_reachable [OF g0 reach branch(4,5,6,7)] by simp_all
    have s2: "solution_ok g0 best2 \<and> numColors best2 \<le> numColors best1"
      using Suc.IH [OF rm _ branch(8)] s1 by simp
    have s3: "solution_ok g0 best' \<and> numColors best' \<le> numColors best2"
      using Suc.IH [OF re _ branch(9)] s2 by simp
    show ?thesis using s1 s2 s3 by simp
  qed
qed

end
